theory Spec2Isabelle
  imports Complex_Main
begin

section \<open>Data model\<close>

text \<open>
  The planner of \<^verbatim>\<open>src/utils/optimizer.ts\<close> and the coupon rules of
  \<^verbatim>\<open>src/utils/couponRules.ts\<close>, embedded as HOL functions.

  Conventions of the embedding:
  \<^item> A JavaScript \<^verbatim>\<open>number\<close> holding money is a rational (\<open>rat\<close>): comparisons, \<open>min\<close>,
    \<open>max\<close>, sums and quotients are exact. NaN and the infinities are not values of the model.
    The code computes on doubles, whose sums and quotients are rounded; so no theorem
    below states that two computed totals agree to within a tolerance, only what is compared,
    added or rounded with what.
  \<^item> A \<^verbatim>\<open>Date\<close> is its day number (\<open>int\<close>). Every date the planner builds is the start date
    moved by whole days with \<^verbatim>\<open>setDate(getDate() + n)\<close>, so all of them carry the start date's
    time of day and compare as their day numbers do.
  \<^item> Coupons are JavaScript objects that are shared between the active list and the entries and
    mutated in place (\<^verbatim>\<open>bestCoupon.used = true\<close>). They live in an explicit store \<open>heap\<close>, a list
    of coupon objects in order of creation; a reference is an index into it.
  \<^item> \<^verbatim>\<open>Math.random()\<close> is a parameter \<open>rnd\<close>: \<open>rnd k\<close> is the string that the \<open>k\<close>-th call of
    \<^verbatim>\<open>createCoupon\<close> puts into the identifier.
\<close>

datatype coupon_type = small | large

datatype entry_status = planned | completed | missed

text \<open>The identifier \<^verbatim>\<open>`${type}-${earnedDate.getTime()}-${random}`\<close>, kept as its three parts.\<close>

type_synonym coupon_ident = "coupon_type \<times> int \<times> string"

record coupon =
  id_c :: coupon_ident
  type_c :: coupon_type
  value_c :: rat
  minSpend :: rat
  earnedDate :: int
  validFrom :: int
  validUntil :: int
  used :: bool
  usedDate :: "int option"

text \<open>
  A shopping entry. The type parameter is what an entry holds for a coupon: a reference
  (\<open>nat\<close>) while the planner runs, the coupon object itself in the result handed to the caller.
  \<open>id_e\<close> is the number \<open>n\<close> of the identifier \<^verbatim>\<open>`entry-${n}`\<close>.
\<close>

record 'c shopping_entry =
  id_e :: nat
  date :: int
  plannedAmount :: rat
  couponEarned :: "'c option"
  couponUsed :: "'c option"
  savings :: rat
  status :: entry_status

record optimization_result =
  res_entries :: "coupon shopping_entry list"
  res_totalSpend :: rat
  res_totalSavings :: rat
  res_missedSavings :: rat
  res_couponsEarned :: nat
  res_couponsUsed :: nat

text \<open>The local variables of \<^verbatim>\<open>optimizeShoppingPlan\<close>, and the coupon store.\<close>

record plan_state =
  heap :: "coupon list"
  entries :: "nat shopping_entry list"
  activeCoupons :: "nat list"
  totalSpend :: rat
  totalSavings :: rat
  missedSavings :: rat
  couponsEarned :: nat
  couponsUsed :: nat
  entryId :: nat

section \<open>Coupon rules\<close>

record coupon_rule =
  rule_minSpend :: rat
  rule_maxSpend :: "rat option"
  couponValue :: rat
  minUseSpend :: rat
  validDays :: int

fun COUPON_RULES :: "coupon_type \<Rightarrow> coupon_rule" where
  "COUPON_RULES small =
     \<lparr>rule_minSpend = 25, rule_maxSpend = Some (4999 / 100), couponValue = 5,
      minUseSpend = 25, validDays = 6\<rparr>"
| "COUPON_RULES large =
     \<lparr>rule_minSpend = 50, rule_maxSpend = None, couponValue = 10,
      minUseSpend = 50, validDays = 9\<rparr>"

definition createCoupon :: "string \<Rightarrow> coupon_type \<Rightarrow> int \<Rightarrow> coupon" where
  "createCoupon r ty earned =
     (let rules = COUPON_RULES ty;
          vFrom = earned + 1;
          vUntil = vFrom + validDays rules
      in \<lparr>id_c = (ty, earned, r), type_c = ty, value_c = couponValue rules,
          minSpend = minUseSpend rules, earnedDate = earned, validFrom = vFrom,
          validUntil = vUntil, used = False, usedDate = None\<rparr>)"

definition getCouponEarned :: "string \<Rightarrow> rat \<Rightarrow> int \<Rightarrow> coupon option" where
  "getCouponEarned r spendAmount earned =
     (if spendAmount \<ge> rule_minSpend (COUPON_RULES large) then Some (createCoupon r large earned)
      else if spendAmount \<ge> rule_minSpend (COUPON_RULES small) then Some (createCoupon r small earned)
      else None)"

definition canUseCoupon :: "coupon \<Rightarrow> rat \<Rightarrow> int \<Rightarrow> bool" where
  "canUseCoupon c spendAmount d =
     (\<not> used c \<and> spendAmount \<ge> minSpend c \<and> d \<ge> validFrom c \<and> d \<le> validUntil c)"

definition isCouponExpired :: "coupon \<Rightarrow> int \<Rightarrow> bool" where
  "isCouponExpired c currentDate = (currentDate > validUntil c)"

section \<open>The planner\<close>

definition determineOptimalShopsPerWeek :: "rat \<Rightarrow> nat" where
  "determineOptimalShopsPerWeek weeklyBudget =
     (if weeklyBudget \<ge> 100 then 2
      else if weeklyBudget \<ge> 75 then (if weeklyBudget \<ge> 90 then 2 else 1)
      else 1)"

definition optimizeSpendForCoupon :: "rat \<Rightarrow> rat \<Rightarrow> rat" where
  "optimizeSpendForCoupon amount remainingBudget =
     (if amount \<ge> 45 \<and> amount < 50 \<and> remainingBudget \<ge> 50 then 50
      else if amount \<ge> 50 then max 50 amount
      else if amount \<ge> 20 \<and> amount < 25 \<and> remainingBudget \<ge> 25 then 25
      else if amount \<ge> 25 \<and> amount < 50 then min (4999 / 100) amount
      else amount)"

text \<open>
  \<^verbatim>\<open>Math.round(x * 100) / 100\<close>; \<^verbatim>\<open>Math.round\<close> rounds a half towards plus infinity. On
  doubles the product \<^verbatim>\<open>x * 100\<close> is itself rounded, so that an amount written with half a
  cent (64.085) can go either way in the code; the theorems use of \<open>round2\<close> only that it is
  monotone and leaves whole numbers as they are, and its value where no half cent is near.
\<close>

definition round2 :: "rat \<Rightarrow> rat" where
  "round2 x = of_int \<lfloor>x * 100 + 1 / 2\<rfloor> / 100"

text \<open>
  \<^verbatim>\<open>activeCoupons.splice(activeCoupons.indexOf(c), 1)\<close>: the first occurrence of \<open>c\<close> goes;
  when \<open>c\<close> does not occur, \<^verbatim>\<open>indexOf\<close> is \<open>-1\<close> and \<^verbatim>\<open>splice(-1, 1)\<close> removes the last element.
\<close>

definition splice_indexOf :: "nat \<Rightarrow> nat list \<Rightarrow> nat list" where
  "splice_indexOf c xs = (if c \<in> set xs then remove1 c xs else butlast xs)"

text \<open>Lines 38 to 43: the expired coupons are collected first, then handled one by one.\<close>

definition is_expired_unused :: "coupon list \<Rightarrow> int \<Rightarrow> nat \<Rightarrow> bool" where
  "is_expired_unused h entryDate c = (entryDate > validUntil (h ! c) \<and> \<not> used (h ! c))"

definition remove_expired :: "int \<Rightarrow> plan_state \<Rightarrow> plan_state" where
  "remove_expired entryDate st =
     (let expiredCoupons = filter (is_expired_unused (heap st) entryDate) (activeCoupons st)
      in fold (\<lambda>c s. s\<lparr>missedSavings := missedSavings s + value_c (heap s ! c),
                        activeCoupons := splice_indexOf c (activeCoupons s)\<rparr>)
           expiredCoupons st)"

text \<open>
  The comparator of line 48 and \<^verbatim>\<open>Array.prototype.sort\<close>, which is stable: an insertion sort
  that puts an element before the first one it does not come after.
\<close>

definition coupon_cmp :: "coupon list \<Rightarrow> nat \<Rightarrow> nat \<Rightarrow> rat" where
  "coupon_cmp h a b =
     (if value_c (h ! a) \<noteq> value_c (h ! b) then value_c (h ! b) - value_c (h ! a)
      else of_int (validUntil (h ! a) - validUntil (h ! b)))"

fun insert_by :: "('a \<Rightarrow> 'a \<Rightarrow> rat) \<Rightarrow> 'a \<Rightarrow> 'a list \<Rightarrow> 'a list" where
  "insert_by cmp x [] = [x]"
| "insert_by cmp x (y # ys) = (if cmp x y \<le> 0 then x # y # ys else y # insert_by cmp x ys)"

definition sort_by :: "('a \<Rightarrow> 'a \<Rightarrow> rat) \<Rightarrow> 'a list \<Rightarrow> 'a list" where
  "sort_by cmp xs = foldr (insert_by cmp) xs []"

definition is_usable :: "coupon list \<Rightarrow> int \<Rightarrow> nat \<Rightarrow> bool" where
  "is_usable h entryDate c =
     (\<not> used (h ! c) \<and> entryDate \<ge> validFrom (h ! c) \<and> entryDate \<le> validUntil (h ! c))"

definition usableCoupons :: "int \<Rightarrow> plan_state \<Rightarrow> nat list" where
  "usableCoupons entryDate st =
     sort_by (coupon_cmp (heap st)) (filter (is_usable (heap st) entryDate) (activeCoupons st))"

text \<open>Lines 55 to 57: what the entries dated inside the week have planned already.\<close>

definition remainingWeeklyAmount :: "int \<Rightarrow> rat \<Rightarrow> plan_state \<Rightarrow> rat" where
  "remainingWeeklyAmount weekStartDate weeklyAmount st =
     weeklyAmount -
       sum_list (map plannedAmount
         (filter (\<lambda>e. date e \<ge> weekStartDate \<and> date e < weekStartDate + 7) (entries st)))"

text \<open>
  Lines 64 to 74. The result is the planned amount, the coupon used, the savings and the
  state in which that coupon is marked used.
\<close>

definition apply_best_coupon ::
  "int \<Rightarrow> rat \<Rightarrow> plan_state \<Rightarrow> rat \<times> nat option \<times> rat \<times> plan_state" where
  "apply_best_coupon entryDate amount st =
     (case usableCoupons entryDate st of
        [] \<Rightarrow> (amount, None, 0, st)
      | bestCoupon # _ \<Rightarrow>
          (if amount \<ge> minSpend (heap st ! bestCoupon) then
             (max amount (minSpend (heap st ! bestCoupon)),
              Some bestCoupon,
              value_c (heap st ! bestCoupon),
              st\<lparr>heap := (heap st)[bestCoupon :=
                            (heap st ! bestCoupon)\<lparr>used := True, usedDate := Some entryDate\<rparr>],
                 couponsUsed := couponsUsed st + 1\<rparr>)
           else (amount, None, 0, st)))"

text \<open>Lines 81 to 85: the coupon earned is allocated in the store and pushed to the active list.\<close>

definition earn_coupon :: "(nat \<Rightarrow> string) \<Rightarrow> rat \<Rightarrow> int \<Rightarrow> plan_state \<Rightarrow> nat option \<times> plan_state" where
  "earn_coupon rnd amount entryDate st =
     (case getCouponEarned (rnd (length (heap st))) amount entryDate of
        None \<Rightarrow> (None, st)
      | Some c \<Rightarrow>
          (Some (length (heap st)),
           st\<lparr>heap := heap st @ [c],
              activeCoupons := activeCoupons st @ [length (heap st)],
              couponsEarned := couponsEarned st + 1\<rparr>))"

text \<open>
  The body of the inner loop, lines 32 to 100. In the loop \<open>shopInWeek < shopsThisWeek\<close>, so
  neither quotient divides by zero where its value is used.
\<close>

definition process_entry ::
  "(nat \<Rightarrow> string) \<Rightarrow> rat \<Rightarrow> int \<Rightarrow> rat \<Rightarrow> nat \<Rightarrow> nat \<Rightarrow> plan_state \<Rightarrow> plan_state" where
  "process_entry rnd totalBudget weekStartDate weeklyAmount shopsThisWeek shopInWeek st =
     (let dayOffset = (if shopInWeek = 0 then 0 else (6 div (shopsThisWeek - 1)) * shopInWeek);
          entryDate = weekStartDate + int dayOffset;
          st1 = remove_expired entryDate st;
          remainingBudget = totalBudget - totalSpend st1;
          amount0 = remainingWeeklyAmount weekStartDate weeklyAmount st1
                      / of_nat (shopsThisWeek - shopInWeek);
          (amount1, cUsed, sav, st2) = apply_best_coupon entryDate amount0 st1;
          amount2 = optimizeSpendForCoupon amount1 remainingBudget;
          amount3 = min amount2 remainingBudget;
          (cEarned, st3) = earn_coupon rnd amount3 entryDate st2;
          entry = \<lparr>id_e = entryId st3, date = entryDate, plannedAmount = round2 amount3,
                   couponEarned = cEarned, couponUsed = cUsed, savings = sav,
                   status = planned\<rparr>
      in st3\<lparr>entries := entries st3 @ [entry],
             entryId := entryId st3 + 1,
             totalSpend := totalSpend st3 + amount3,
             totalSavings := totalSavings st3 + sav\<rparr>)"

text \<open>The inner loop, lines 31 to 103, from \<open>shopInWeek\<close> on.\<close>

function shop_loop ::
  "(nat \<Rightarrow> string) \<Rightarrow> rat \<Rightarrow> int \<Rightarrow> rat \<Rightarrow> nat \<Rightarrow> nat \<Rightarrow> plan_state \<Rightarrow> plan_state" where
  "shop_loop rnd totalBudget weekStartDate weeklyAmount shopsThisWeek shopInWeek st =
     (if shopInWeek < shopsThisWeek then
        (let st' = process_entry rnd totalBudget weekStartDate weeklyAmount
                     shopsThisWeek shopInWeek st
         in if totalSpend st' \<ge> totalBudget then st'
            else shop_loop rnd totalBudget weekStartDate weeklyAmount
                   shopsThisWeek (shopInWeek + 1) st')
      else st)"
  by pat_completeness auto
termination
  by (relation "measure (\<lambda>(rnd, tb, ws, wa, shops, i, st). shops - i)") auto

text \<open>The outer loop, lines 22 to 106, from \<open>week\<close> on.\<close>

function week_loop :: "(nat \<Rightarrow> string) \<Rightarrow> rat \<Rightarrow> int \<Rightarrow> nat \<Rightarrow> plan_state \<Rightarrow> plan_state" where
  "week_loop rnd weeklyBudget startDate week st =
     (if week < 10 then
        (let totalBudget = weeklyBudget * 10;
             weekStartDate = startDate + int (week * 7);
             weeklyAmount = min weeklyBudget (totalBudget - totalSpend st)
         in if weeklyAmount \<le> 0 then st
            else
              (let shopsThisWeek = determineOptimalShopsPerWeek weeklyAmount;
                   st' = shop_loop rnd totalBudget weekStartDate weeklyAmount shopsThisWeek 0 st
               in if totalSpend st' \<ge> totalBudget then st'
                  else week_loop rnd weeklyBudget startDate (week + 1) st'))
      else st)"
  by pat_completeness auto
termination
  by (relation "measure (\<lambda>(rnd, wb, sd, week, st). 10 - week)") auto

definition init_state :: plan_state where
  "init_state =
     \<lparr>heap = [], entries = [], activeCoupons = [], totalSpend = 0, totalSavings = 0,
      missedSavings = 0, couponsEarned = 0, couponsUsed = 0, entryId = 0\<rparr>"

text \<open>The state in which \<^verbatim>\<open>optimizeShoppingPlan\<close> reaches its \<^verbatim>\<open>return\<close>.\<close>

definition plan_run :: "(nat \<Rightarrow> string) \<Rightarrow> rat \<Rightarrow> int \<Rightarrow> plan_state" where
  "plan_run rnd weeklyBudget startDate = week_loop rnd weeklyBudget startDate 0 init_state"

text \<open>What the caller sees of an entry: the coupon objects its references point to.\<close>

definition deref_entry :: "coupon list \<Rightarrow> nat shopping_entry \<Rightarrow> coupon shopping_entry" where
  "deref_entry h e =
     \<lparr>id_e = id_e e, date = date e, plannedAmount = plannedAmount e,
      couponEarned = map_option (nth h) (couponEarned e),
      couponUsed = map_option (nth h) (couponUsed e),
      savings = savings e, status = status e\<rparr>"

definition optimizeShoppingPlan :: "(nat \<Rightarrow> string) \<Rightarrow> rat \<Rightarrow> int \<Rightarrow> optimization_result" where
  "optimizeShoppingPlan rnd weeklyBudget startDate =
     (let st = plan_run rnd weeklyBudget startDate
      in \<lparr>res_entries = map (deref_entry (heap st)) (entries st),
          res_totalSpend = round2 (totalSpend st),
          res_totalSavings = round2 (totalSavings st),
          res_missedSavings = round2 (missedSavings st),
          res_couponsEarned = couponsEarned st,
          res_couponsUsed = couponsUsed st\<rparr>)"

section \<open>Auxiliary notions for the proofs\<close>

text \<open>
  Names for the intermediate values of one pass through the inner loop: the entry's date
  (lines 32 to 35), the spend planned before any adjustment (line 59), the coupon that
  lines 64 to 74 redeem, the store after that redemption, and the spend after lines 77 and 78.
\<close>

definition entry_date :: "int \<Rightarrow> nat \<Rightarrow> nat \<Rightarrow> int" where
  "entry_date weekStartDate shopsThisWeek shopInWeek =
     weekStartDate + int (if shopInWeek = 0 then 0 else (6 div (shopsThisWeek - 1)) * shopInWeek)"

definition tentative_spend :: "int \<Rightarrow> rat \<Rightarrow> nat \<Rightarrow> nat \<Rightarrow> plan_state \<Rightarrow> rat" where
  "tentative_spend weekStartDate weeklyAmount shopsThisWeek shopInWeek st =
     remainingWeeklyAmount weekStartDate weeklyAmount st / of_nat (shopsThisWeek - shopInWeek)"

definition chosen_coupon :: "int \<Rightarrow> rat \<Rightarrow> plan_state \<Rightarrow> nat option" where
  "chosen_coupon entryDate amount st =
     (case usableCoupons entryDate st of
        [] \<Rightarrow> None
      | bestCoupon # _ \<Rightarrow> if amount \<ge> minSpend (heap st ! bestCoupon) then Some bestCoupon else None)"

definition mark_used :: "int \<Rightarrow> nat option \<Rightarrow> coupon list \<Rightarrow> coupon list" where
  "mark_used entryDate cu h =
     (case cu of None \<Rightarrow> h | Some b \<Rightarrow> h[b := (h ! b)\<lparr>used := True, usedDate := Some entryDate\<rparr>])"

definition final_spend :: "rat \<Rightarrow> rat \<Rightarrow> rat" where
  "final_spend amount remainingBudget =
     min (optimizeSpendForCoupon amount remainingBudget) remainingBudget"

text \<open>
  The threshold-seeking adjustment as the specification words it: five cases tried in
  order, then the clamp to the remaining overall budget.
\<close>

definition threshold_adjust_spec :: "rat \<Rightarrow> rat \<Rightarrow> rat" where
  "threshold_adjust_spec s r =
     min (if 45 \<le> s \<and> s < 50 \<and> r \<ge> 50 then 50
          else if s \<ge> 50 then max 50 s
          else if 20 \<le> s \<and> s < 25 \<and> r \<ge> 25 then 25
          else if 25 \<le> s \<and> s < 50 then min (4999 / 100) s
          else s) r"

text \<open>
  Every reference of the active list points into the store, and none occurs twice: each
  coupon object is pushed once, when it is created.
\<close>

definition refs_ok :: "plan_state \<Rightarrow> bool" where
  "refs_ok st = (distinct (activeCoupons st) \<and> (\<forall>r\<in>set (activeCoupons st). r < length (heap st)))"

text \<open>
  A coupon as \<open>createCoupon\<close> builds it and the planner keeps it: value, minimum spend and
  validity window are those of its type, whatever its \<open>used\<close> flag.
\<close>

definition coupon_ok :: "coupon \<Rightarrow> bool" where
  "coupon_ok c =
     (value_c c = couponValue (COUPON_RULES (type_c c)) \<and>
      minSpend c = minUseSpend (COUPON_RULES (type_c c)) \<and>
      validFrom c = earnedDate c + 1 \<and>
      validUntil c = validFrom c + validDays (COUPON_RULES (type_c c)))"



text \<open>A source of random strings for concrete runs: every call gives the empty string.\<close>

definition rnd0 :: "nat \<Rightarrow> string" where
  "rnd0 k = []"


text \<open>The coupon objects that are no longer in the active list.\<close>

definition removed_refs :: "plan_state \<Rightarrow> nat set" where
  "removed_refs st = {..<length (heap st)} - set (activeCoupons st)"

text \<open>
  Missed savings are the values of the removed coupons, each counted once, and no removed
  coupon is used.
\<close>

definition missed_ok :: "plan_state \<Rightarrow> bool" where
  "missed_ok st =
     (missedSavings st = (\<Sum>r\<in>removed_refs st. value_c (heap st ! r)) \<and>
      (\<forall>r\<in>removed_refs st. \<not> used (heap st ! r)))"

text \<open>The references that the entries record as redeemed, in order.\<close>

definition used_refs :: "nat shopping_entry list \<Rightarrow> nat list" where
  "used_refs es = List.map_filter couponUsed es"

text \<open>
  No coupon is recorded as redeemed by two entries, and the coupons recorded as redeemed are
  those marked used in the store.
\<close>

definition redeem_ok :: "plan_state \<Rightarrow> bool" where
  "redeem_ok st =
     (distinct (used_refs (entries st)) \<and>
      set (used_refs (entries st)) = {r. r < length (heap st) \<and> used (heap st ! r)})"

text \<open>
  Scenario C of the specification: one small coupon, earned on day 5 and so expiring on
  day 12, is active and unused.
\<close>

definition scenario_c :: plan_state where
  "scenario_c =
     \<lparr>heap = [createCoupon [] small 5], entries = [], activeCoupons = [0], totalSpend = 0,
      totalSavings = 0, missedSavings = 0, couponsEarned = 1, couponsUsed = 0, entryId = 0\<rparr>"

text \<open>
  A state in which three coupons are active and unused on day 7: a small one earned on day
  3, a large one earned on day 6 and a large one earned on day 0.
\<close>

definition scenario_redeem :: plan_state where
  "scenario_redeem =
     \<lparr>heap = [createCoupon [] small 3, createCoupon [] large 6, createCoupon [] large 0],
      entries = [], activeCoupons = [0, 1, 2], totalSpend = 150,
      totalSavings = 0, missedSavings = 0, couponsEarned = 3, couponsUsed = 0, entryId = 3\<rparr>"

text \<open>
  Every entry that records a redeemed coupon records a planned amount of at least that
  coupon's minimum spend.
\<close>

definition min_spend_met :: "plan_state \<Rightarrow> bool" where
  "min_spend_met st =
     (\<forall>e\<in>set (entries st). \<forall>r. couponUsed e = Some r \<longrightarrow>
        r < length (heap st) \<and> minSpend (heap st ! r) \<le> plannedAmount e)"

text \<open>What holds when a week starting on day \<open>D\<close> begins: all entries are dated before it.\<close>

definition week_inv :: "int \<Rightarrow> plan_state \<Rightarrow> bool" where
  "week_inv D st =
     (refs_ok st \<and> list_all coupon_ok (heap st) \<and> min_spend_met st \<and>
      (\<forall>e\<in>set (entries st). date e < D))"

text \<open>
  Forgetting the random part of coupon identifiers: in a coupon, in an entry of a result, in
  a result, and in the store of a state.
\<close>

definition erase_id :: "coupon \<Rightarrow> coupon" where
  "erase_id c = c\<lparr>id_c := (fst (id_c c), fst (snd (id_c c)), [])\<rparr>"

definition erase_entry :: "coupon shopping_entry \<Rightarrow> coupon shopping_entry" where
  "erase_entry e =
     e\<lparr>couponEarned := map_option erase_id (couponEarned e),
       couponUsed := map_option erase_id (couponUsed e)\<rparr>"

definition erase_result :: "optimization_result \<Rightarrow> optimization_result" where
  "erase_result r = r\<lparr>res_entries := map erase_entry (res_entries r)\<rparr>"

definition erase_state :: "plan_state \<Rightarrow> plan_state" where
  "erase_state st = st\<lparr>heap := map erase_id (heap st)\<rparr>"

text \<open>
  The references held by entries point into the store, and every coupon of the store is the
  earned coupon of some entry.
\<close>

definition entry_refs_ok :: "plan_state \<Rightarrow> bool" where
  "entry_refs_ok st =
     ((\<forall>e\<in>set (entries st). \<forall>r. couponEarned e = Some r \<longrightarrow> r < length (heap st)) \<and>
      (\<forall>e\<in>set (entries st). \<forall>r. couponUsed e = Some r \<longrightarrow> r < length (heap st)) \<and>
      (\<forall>r<length (heap st). \<exists>e\<in>set (entries st). couponEarned e = Some r))"

text \<open>A second source of random strings, different at every call.\<close>

definition rnd_a :: "nat \<Rightarrow> string" where
  "rnd_a k = replicate (Suc k) (CHR ''a'')"

section \<open>Basic facts\<close>

declare shop_loop.simps [simp del] week_loop.simps [simp del]

lemma fold_expire_frame:
  defines "f \<equiv> (\<lambda>c s. s\<lparr>missedSavings := missedSavings s + value_c (heap s ! c),
                        activeCoupons := splice_indexOf c (activeCoupons s)\<rparr>)"
  shows "heap (fold f xs st) = heap st"
    and "entries (fold f xs st) = entries st"
    and "totalSpend (fold f xs st) = totalSpend st"
    and "totalSavings (fold f xs st) = totalSavings st"
    and "couponsEarned (fold f xs st) = couponsEarned st"
    and "couponsUsed (fold f xs st) = couponsUsed st"
    and "entryId (fold f xs st) = entryId st"
  by (induction xs arbitrary: st; simp add: f_def)+

lemma remove_expired_frame:
  "heap (remove_expired d st) = heap st"
  "entries (remove_expired d st) = entries st"
  "totalSpend (remove_expired d st) = totalSpend st"
  "totalSavings (remove_expired d st) = totalSavings st"
  "couponsEarned (remove_expired d st) = couponsEarned st"
  "couponsUsed (remove_expired d st) = couponsUsed st"
  "entryId (remove_expired d st) = entryId st"
  by (simp_all add: remove_expired_def Let_def fold_expire_frame)

lemma fold_expire_missed:
  "missedSavings (fold (\<lambda>c s. s\<lparr>missedSavings := missedSavings s + value_c (heap s ! c),
                        activeCoupons := splice_indexOf c (activeCoupons s)\<rparr>) xs st)
   = missedSavings st + sum_list (map (\<lambda>c. value_c (heap st ! c)) xs)"
proof (induction xs arbitrary: st)
  case Nil
  show ?case by simp
next
  case (Cons c xs)
  show ?case by (simp add: Cons.IH fold_expire_frame)
qed

lemma fold_expire_active:
  assumes "distinct (activeCoupons st)" "distinct xs" "set xs \<subseteq> set (activeCoupons st)"
  shows "activeCoupons (fold (\<lambda>c s. s\<lparr>missedSavings := missedSavings s + value_c (heap s ! c),
                        activeCoupons := splice_indexOf c (activeCoupons s)\<rparr>) xs st)
   = filter (\<lambda>x. x \<notin> set xs) (activeCoupons st)"
  using assms
proof (induction xs arbitrary: st)
  case Nil
  show ?case by simp
next
  case (Cons c xs)
  let ?st' = "st\<lparr>missedSavings := missedSavings st + value_c (heap st ! c),
                 activeCoupons := splice_indexOf c (activeCoupons st)\<rparr>"
  have c: "c \<in> set (activeCoupons st)" "c \<notin> set xs" using Cons.prems by auto
  have act: "activeCoupons ?st' = filter (\<lambda>x. x \<noteq> c) (activeCoupons st)"
    using c(1) Cons.prems(1)
    by (simp add: splice_indexOf_def distinct_remove1_removeAll removeAll_filter_not_eq) metis
  have "activeCoupons (fold (\<lambda>c s. s\<lparr>missedSavings := missedSavings s + value_c (heap s ! c),
                        activeCoupons := splice_indexOf c (activeCoupons s)\<rparr>) xs ?st')
        = filter (\<lambda>x. x \<notin> set xs) (activeCoupons ?st')"
    using Cons.prems c by (intro Cons.IH) (auto simp: act)
  then show ?case by (simp add: act conj_commute)
qed

lemma remove_expired_active:
  assumes "distinct (activeCoupons st)"
  shows "activeCoupons (remove_expired d st)
         = filter (\<lambda>c. \<not> is_expired_unused (heap st) d c) (activeCoupons st)"
proof -
  have "filter (\<lambda>x. x \<notin> set (filter (is_expired_unused (heap st) d) (activeCoupons st))) (activeCoupons st)
        = filter (\<lambda>c. \<not> is_expired_unused (heap st) d c) (activeCoupons st)"
    by (rule filter_cong) auto
  then show ?thesis
    using assms by (simp add: remove_expired_def Let_def fold_expire_active)
qed

lemma remove_expired_missed:
  "missedSavings (remove_expired d st)
   = missedSavings st + sum_list (map (\<lambda>c. value_c (heap st ! c))
       (filter (is_expired_unused (heap st) d) (activeCoupons st)))"
  by (simp add: remove_expired_def Let_def fold_expire_missed)

lemma apply_best_coupon_eq:
  "apply_best_coupon d a st =
     (a, chosen_coupon d a st,
      (case chosen_coupon d a st of None \<Rightarrow> 0 | Some b \<Rightarrow> value_c (heap st ! b)),
      (case chosen_coupon d a st of None \<Rightarrow> st
       | Some b \<Rightarrow> st\<lparr>heap := mark_used d (Some b) (heap st), couponsUsed := couponsUsed st + 1\<rparr>))"
  by (simp add: apply_best_coupon_def chosen_coupon_def mark_used_def max_def split: list.splits)

lemma mark_used_None: "mark_used d None h = h"
  by (simp add: mark_used_def)

lemma length_mark_used: "length (mark_used d cu h) = length h"
  by (simp add: mark_used_def split: option.splits)

lemma nth_mark_used:
  assumes "r < length h"
  shows "mark_used d cu h ! r =
           (if cu = Some r then (h ! r)\<lparr>used := True, usedDate := Some d\<rparr> else h ! r)"
proof (cases cu)
  case None
  then show ?thesis by (simp add: mark_used_def)
next
  case (Some b)
  then show ?thesis using assms by (cases "b = r") (simp_all add: mark_used_def)
qed

lemma value_c_mark_used:
  "r < length h \<Longrightarrow> value_c (mark_used d cu h ! r) = value_c (h ! r)"
  "r < length h \<Longrightarrow> minSpend (mark_used d cu h ! r) = minSpend (h ! r)"
  "r < length h \<Longrightarrow> validUntil (mark_used d cu h ! r) = validUntil (h ! r)"
  "r < length h \<Longrightarrow> validFrom (mark_used d cu h ! r) = validFrom (h ! r)"
  "r < length h \<Longrightarrow> earnedDate (mark_used d cu h ! r) = earnedDate (h ! r)"
  "r < length h \<Longrightarrow> id_c (mark_used d cu h ! r) = id_c (h ! r)"
  "r < length h \<Longrightarrow> type_c (mark_used d cu h ! r) = type_c (h ! r)"
  by (simp_all add: nth_mark_used)

lemma tentative_spend_frame:
  "tentative_spend ws w shops i (remove_expired d st) = tentative_spend ws w shops i st"
  by (simp add: tentative_spend_def remainingWeeklyAmount_def remove_expired_frame)

lemma process_entry_fields:
  shows "heap (process_entry rnd tb ws w shops i st) =
           mark_used (entry_date ws shops i)
             (chosen_coupon (entry_date ws shops i) (tentative_spend ws w shops i st)
                (remove_expired (entry_date ws shops i) st)) (heap st)
           @ (case getCouponEarned (rnd (length (heap st)))
                     (final_spend (tentative_spend ws w shops i st) (tb - totalSpend st))
                     (entry_date ws shops i)
              of None \<Rightarrow> [] | Some c \<Rightarrow> [c])"
    and "entries (process_entry rnd tb ws w shops i st) =
           entries st @
           [\<lparr>id_e = entryId st, date = entry_date ws shops i,
             plannedAmount = round2 (final_spend (tentative_spend ws w shops i st) (tb - totalSpend st)),
             couponEarned =
               (case getCouponEarned (rnd (length (heap st)))
                     (final_spend (tentative_spend ws w shops i st) (tb - totalSpend st))
                     (entry_date ws shops i)
                of None \<Rightarrow> None | Some c \<Rightarrow> Some (length (heap st))),
             couponUsed = chosen_coupon (entry_date ws shops i) (tentative_spend ws w shops i st)
                (remove_expired (entry_date ws shops i) st),
             savings =
               (case chosen_coupon (entry_date ws shops i) (tentative_spend ws w shops i st)
                      (remove_expired (entry_date ws shops i) st)
                of None \<Rightarrow> 0 | Some b \<Rightarrow> value_c (heap st ! b)),
             status = planned\<rparr>]"
    and "activeCoupons (process_entry rnd tb ws w shops i st) =
           activeCoupons (remove_expired (entry_date ws shops i) st)
           @ (case getCouponEarned (rnd (length (heap st)))
                     (final_spend (tentative_spend ws w shops i st) (tb - totalSpend st))
                     (entry_date ws shops i)
              of None \<Rightarrow> [] | Some c \<Rightarrow> [length (heap st)])"
    and "totalSpend (process_entry rnd tb ws w shops i st) =
           totalSpend st + final_spend (tentative_spend ws w shops i st) (tb - totalSpend st)"
    and "totalSavings (process_entry rnd tb ws w shops i st) =
           totalSavings st +
             (case chosen_coupon (entry_date ws shops i) (tentative_spend ws w shops i st)
                      (remove_expired (entry_date ws shops i) st)
                of None \<Rightarrow> 0 | Some b \<Rightarrow> value_c (heap st ! b))"
    and "missedSavings (process_entry rnd tb ws w shops i st) =
           missedSavings (remove_expired (entry_date ws shops i) st)"
    and "couponsEarned (process_entry rnd tb ws w shops i st) =
           couponsEarned st +
             (case getCouponEarned (rnd (length (heap st)))
                     (final_spend (tentative_spend ws w shops i st) (tb - totalSpend st))
                     (entry_date ws shops i)
              of None \<Rightarrow> 0 | Some c \<Rightarrow> 1)"
    and "couponsUsed (process_entry rnd tb ws w shops i st) =
           couponsUsed st +
             (case chosen_coupon (entry_date ws shops i) (tentative_spend ws w shops i st)
                      (remove_expired (entry_date ws shops i) st)
                of None \<Rightarrow> 0 | Some b \<Rightarrow> 1)"
    and "entryId (process_entry rnd tb ws w shops i st) = entryId st + 1"
  unfolding process_entry_def Let_def apply_best_coupon_eq earn_coupon_def prod.case
    entry_date_def [symmetric] tentative_spend_def [symmetric] final_spend_def [symmetric]
  by (simp_all add: remove_expired_frame length_mark_used tentative_spend_frame mark_used_None
      split: option.splits)

lemma heap_process_entry_nth:
  assumes "r < length (heap st)"
  shows "heap (process_entry rnd tb ws w shops i st) ! r
       = mark_used (entry_date ws shops i)
           (chosen_coupon (entry_date ws shops i) (tentative_spend ws w shops i st)
              (remove_expired (entry_date ws shops i) st)) (heap st) ! r"
  using assms by (simp add: process_entry_fields nth_append length_mark_used)

lemma length_heap_process_entry:
  "length (heap (process_entry rnd tb ws w shops i st)) =
     length (heap st) +
       (case getCouponEarned (rnd (length (heap st)))
                     (final_spend (tentative_spend ws w shops i st) (tb - totalSpend st))
                     (entry_date ws shops i)
        of None \<Rightarrow> 0 | Some c \<Rightarrow> 1)"
  by (simp add: process_entry_fields length_mark_used split: option.splits)

lemma used_process_entry_nth:
  assumes "r < length (heap st)"
  shows "used (heap (process_entry rnd tb ws w shops i st) ! r) =
          (used (heap st ! r) \<or>
           chosen_coupon (entry_date ws shops i) (tentative_spend ws w shops i st)
              (remove_expired (entry_date ws shops i) st) = Some r)"
  using assms by (auto simp: heap_process_entry_nth nth_mark_used)

lemma last_entry_process_entry:
  "couponUsed (last (entries (process_entry rnd tb ws w shops i st)))
     = chosen_coupon (entry_date ws shops i) (tentative_spend ws w shops i st)
         (remove_expired (entry_date ws shops i) st)"
  "date (last (entries (process_entry rnd tb ws w shops i st))) = entry_date ws shops i"
  by (simp_all add: process_entry_fields)

lemma entry_date_simps:
  "entry_date ws shops 0 = ws" "entry_date ws 2 1 = ws + 6"
  by (simp_all add: entry_date_def)

lemma deref_entry_fields:
  "plannedAmount (deref_entry h e) = plannedAmount e"
  "savings (deref_entry h e) = savings e"
  "date (deref_entry h e) = date e"
  "couponEarned (deref_entry h e) = map_option (nth h) (couponEarned e)"
  "couponUsed (deref_entry h e) = map_option (nth h) (couponUsed e)"
  by (simp_all add: deref_entry_def)

lemma res_fields:
  "res_entries (optimizeShoppingPlan rnd b d) =
     map (deref_entry (heap (plan_run rnd b d))) (entries (plan_run rnd b d))"
  "res_totalSpend (optimizeShoppingPlan rnd b d) = round2 (totalSpend (plan_run rnd b d))"
  "res_totalSavings (optimizeShoppingPlan rnd b d) = round2 (totalSavings (plan_run rnd b d))"
  "res_missedSavings (optimizeShoppingPlan rnd b d) = round2 (missedSavings (plan_run rnd b d))"
  "res_couponsEarned (optimizeShoppingPlan rnd b d) = couponsEarned (plan_run rnd b d)"
  "res_couponsUsed (optimizeShoppingPlan rnd b d) = couponsUsed (plan_run rnd b d)"
  by (simp_all add: optimizeShoppingPlan_def Let_def)

section \<open>The loops\<close>

lemma shop_loop_stop:
  "\<not> i < shops \<Longrightarrow> shop_loop rnd tb ws w shops i st = st"
  by (subst shop_loop.simps) simp

lemma shop_loop_step:
  "i < shops \<Longrightarrow> shop_loop rnd tb ws w shops i st =
     (if tb \<le> totalSpend (process_entry rnd tb ws w shops i st)
      then process_entry rnd tb ws w shops i st
      else shop_loop rnd tb ws w shops (i + 1) (process_entry rnd tb ws w shops i st))"
  by (subst shop_loop.simps) (simp add: Let_def)

lemma shop_loop_one:
  "shop_loop rnd tb ws w 1 0 st = process_entry rnd tb ws w 1 0 st"
  by (simp add: shop_loop_step shop_loop_stop)

lemma shop_loop_two:
  "shop_loop rnd tb ws w 2 0 st =
     (if tb \<le> totalSpend (process_entry rnd tb ws w 2 0 st) then process_entry rnd tb ws w 2 0 st
      else process_entry rnd tb ws w 2 1 (process_entry rnd tb ws w 2 0 st))"
  by (simp add: shop_loop_step shop_loop_stop)

lemma week_loop_step:
  "week_loop rnd b d week st =
     (if week < 10 \<and> \<not> min b (b * 10 - totalSpend st) \<le> 0 then
        (if b * 10 \<le> totalSpend
              (shop_loop rnd (b * 10) (d + int (week * 7)) (min b (b * 10 - totalSpend st))
                 (determineOptimalShopsPerWeek (min b (b * 10 - totalSpend st))) 0 st)
         then shop_loop rnd (b * 10) (d + int (week * 7)) (min b (b * 10 - totalSpend st))
                 (determineOptimalShopsPerWeek (min b (b * 10 - totalSpend st))) 0 st
         else week_loop rnd b d (week + 1)
               (shop_loop rnd (b * 10) (d + int (week * 7)) (min b (b * 10 - totalSpend st))
                 (determineOptimalShopsPerWeek (min b (b * 10 - totalSpend st))) 0 st))
      else st)"
  by (subst week_loop.simps) (simp add: Let_def)

lemma shop_loop_inv:
  assumes "\<And>i st. I st \<Longrightarrow> I (process_entry rnd tb ws w shops i st)"
    and "I st"
  shows "I (shop_loop rnd tb ws w shops i st)"
  using assms
proof (induction rnd tb ws w shops i st rule: shop_loop.induct)
  case (1 rnd tb ws w shops i st)
  let ?st' = "process_entry rnd tb ws w shops i st"
  note step = "1.prems"(1)
  show ?case
  proof (cases "i < shops")
    case False
    then show ?thesis using "1.prems"(2) by (subst shop_loop.simps) simp
  next
    case True
    have I': "I ?st'" using "1.prems"(2) by (rule step)
    show ?thesis
    proof (cases "totalSpend ?st' \<ge> tb")
      case True
      then show ?thesis using \<open>i < shops\<close> I' by (subst shop_loop.simps) (simp add: Let_def)
    next
      case False
      then have "I (shop_loop rnd tb ws w shops (i + 1) ?st')"
        using "1.IH" [OF \<open>i < shops\<close> refl _ step I'] by simp
      then show ?thesis using \<open>i < shops\<close> False by (subst shop_loop.simps) (simp add: Let_def)
    qed
  qed
qed

lemma week_loop_inv:
  assumes "\<And>tb ws w shops i st. I st \<Longrightarrow> I (process_entry rnd tb ws w shops i st)"
    and "I st"
  shows "I (week_loop rnd b d week st)"
  using assms
proof (induction rnd b d week st rule: week_loop.induct)
  case (1 rnd b d week st)
  note step = "1.prems"(1)
  let ?w = "min b (b * 10 - totalSpend st)"
  let ?st' = "shop_loop rnd (b * 10) (d + int (week * 7)) ?w (determineOptimalShopsPerWeek ?w) 0 st"
  have I': "I ?st'"
    using step "1.prems"(2) by (rule shop_loop_inv)
  show ?case
  proof (cases "week < 10 \<and> \<not> ?w \<le> 0 \<and> \<not> totalSpend ?st' \<ge> b * 10")
    case True
    then have "I (week_loop rnd b d (week + 1) ?st')"
      using "1.IH" [OF _ refl refl refl _ refl refl _ step I'] by simp
    then show ?thesis using True
      by (subst week_loop.simps) (simp add: Let_def)
  next
    case False
    then show ?thesis using "1.prems"(2) I'
      by (subst week_loop.simps) (auto simp add: Let_def)
  qed
qed

lemma plan_run_inv:
  assumes "\<And>tb ws w shops i st. I st \<Longrightarrow> I (process_entry rnd tb ws w shops i st)"
    and "I init_state"
  shows "I (plan_run rnd b d)"
  unfolding plan_run_def using assms by (rule week_loop_inv)






section \<open>Rounding to cents\<close>

lemma round2_0: "round2 0 = 0"
  by (simp add: round2_def floor_eq_iff)

lemma round2_of_int: "round2 (of_int k) = of_int k"
proof -
  have "\<lfloor>(of_int k :: rat) * 100 + 1 / 2\<rfloor> = k * 100"
    by (rule floor_unique) simp_all
  then show ?thesis by (simp add: round2_def)
qed


lemma round2_mono: "x \<le> y \<Longrightarrow> round2 x \<le> round2 y"
  by (simp add: round2_def divide_right_mono floor_mono)

lemma round2_numeral: "round2 (numeral n) = numeral n"
  using round2_of_int [of "numeral n"] by simp

section \<open>The best usable coupon\<close>

lemma coupon_cmp_le_iff:
  "(coupon_cmp h a b \<le> 0) =
     (value_c (h ! b) < value_c (h ! a) \<or>
      (value_c (h ! a) = value_c (h ! b) \<and> validUntil (h ! a) \<le> validUntil (h ! b)))"
  by (auto simp: coupon_cmp_def)

lemma coupon_cmp_total: "coupon_cmp h a b \<le> 0 \<or> coupon_cmp h b a \<le> 0"
  unfolding coupon_cmp_le_iff by auto

lemma coupon_cmp_trans:
  "coupon_cmp h a b \<le> 0 \<Longrightarrow> coupon_cmp h b c \<le> 0 \<Longrightarrow> coupon_cmp h a c \<le> 0"
  unfolding coupon_cmp_le_iff by auto

lemma set_insert_by: "set (insert_by cmp x ys) = insert x (set ys)"
  by (induction ys) auto

lemma set_sort_by: "set (sort_by cmp xs) = set xs"
  by (induction xs) (simp_all add: sort_by_def set_insert_by)

lemma insert_by_hd_least:
  assumes total: "\<And>x y. cmp x y \<le> 0 \<or> cmp y x \<le> 0"
    and trans: "\<And>x y z. cmp x y \<le> 0 \<Longrightarrow> cmp y z \<le> 0 \<Longrightarrow> cmp x z \<le> 0"
    and least: "\<forall>c\<in>set ys. cmp (hd ys) c \<le> 0"
  shows "\<forall>c\<in>set (insert_by cmp x ys). cmp (hd (insert_by cmp x ys)) c \<le> 0"
proof (cases ys)
  case Nil
  then show ?thesis using total [of x x] by simp
next
  case (Cons y ys')
  show ?thesis
  proof (cases "cmp x y \<le> 0")
    case True
    have "cmp x c \<le> 0" if "c \<in> set ys" for c
      using trans [OF True] least that Cons by auto
    then show ?thesis using True Cons total [of x x] by simp
  next
    case False
    then have "cmp y x \<le> 0" using total [of x y] by simp
    then show ?thesis using False Cons least by (simp add: set_insert_by)
  qed
qed

lemma sort_by_hd_least:
  assumes total: "\<And>x y. cmp x y \<le> 0 \<or> cmp y x \<le> 0"
    and trans: "\<And>x y z. cmp x y \<le> 0 \<Longrightarrow> cmp y z \<le> 0 \<Longrightarrow> cmp x z \<le> 0"
  shows "\<forall>c\<in>set (sort_by cmp xs). cmp (hd (sort_by cmp xs)) c \<le> 0"
proof (induction xs)
  case Nil
  show ?case by (simp add: sort_by_def)
next
  case (Cons x xs)
  have "sort_by cmp (x # xs) = insert_by cmp x (sort_by cmp xs)"
    by (simp add: sort_by_def)
  then show ?case
    using insert_by_hd_least [where cmp = cmp, OF total trans Cons.IH] by simp
qed

lemma chosen_coupon_SomeD:
  assumes "chosen_coupon d a st = Some b"
  shows "b \<in> set (activeCoupons st)" "is_usable (heap st) d b" "minSpend (heap st ! b) \<le> a"
    "\<forall>c\<in>set (activeCoupons st). is_usable (heap st) d c \<longrightarrow> coupon_cmp (heap st) b c \<le> 0"
proof -
  let ?us = "usableCoupons d st"
  from assms obtain rest where us: "?us = b # rest" and a: "minSpend (heap st ! b) \<le> a"
    by (auto simp: chosen_coupon_def split: list.splits if_splits)
  have set_us: "set ?us = {c \<in> set (activeCoupons st). is_usable (heap st) d c}"
    by (auto simp: usableCoupons_def set_sort_by)
  have "b \<in> set ?us" using us by simp
  then show "b \<in> set (activeCoupons st)" "is_usable (heap st) d b"
    using set_us by auto
  show "minSpend (heap st ! b) \<le> a" by (rule a)
  have "\<forall>c\<in>set ?us. coupon_cmp (heap st) (hd ?us) c \<le> 0"
    unfolding usableCoupons_def
    by (rule sort_by_hd_least [OF coupon_cmp_total coupon_cmp_trans])
  then show "\<forall>c\<in>set (activeCoupons st). is_usable (heap st) d c \<longrightarrow> coupon_cmp (heap st) b c \<le> 0"
    using set_us us by auto
qed

section \<open>References into the store\<close>

lemma refs_ok_remove_expired: "refs_ok st \<Longrightarrow> refs_ok (remove_expired d st)"
  by (simp add: refs_ok_def remove_expired_active remove_expired_frame)

lemma refs_ok_process_entry:
  assumes "refs_ok st"
  shows "refs_ok (process_entry rnd tb ws w shops i st)"
proof -
  have "refs_ok (remove_expired (entry_date ws shops i) st)"
    using assms by (rule refs_ok_remove_expired)
  then show ?thesis
    by (auto simp: refs_ok_def process_entry_fields length_mark_used remove_expired_frame
          split: option.splits)
qed

lemma refs_ok_init: "refs_ok init_state"
  by (simp add: refs_ok_def init_state_def)

lemma refs_ok_plan_run: "refs_ok (plan_run rnd b d)"
  using refs_ok_process_entry refs_ok_init by (rule plan_run_inv)

lemma refs_ok_shop_loop: "refs_ok st \<Longrightarrow> refs_ok (shop_loop rnd tb ws w shops i st)"
  using refs_ok_process_entry by (rule shop_loop_inv)

lemma chosen_coupon_valid:
  assumes "refs_ok st" "chosen_coupon d a (remove_expired d st) = Some b"
  shows "b \<in> set (activeCoupons st)" "b < length (heap st)" "\<not> used (heap st ! b)"
    "is_usable (heap st) d b" "minSpend (heap st ! b) \<le> a"
proof -
  note D = chosen_coupon_SomeD [OF assms(2), unfolded remove_expired_frame]
  show b: "b \<in> set (activeCoupons st)"
    using D(1) assms(1) by (simp add: remove_expired_active refs_ok_def)
  then show "b < length (heap st)" using assms(1) by (simp add: refs_ok_def)
  show "is_usable (heap st) d b" by (rule D(2))
  then show "\<not> used (heap st ! b)" by (simp add: is_usable_def)
  show "minSpend (heap st ! b) \<le> a" by (rule D(3))
qed

lemma coupon_ok_createCoupon: "coupon_ok (createCoupon r ty D)"
  by (simp add: coupon_ok_def createCoupon_def Let_def)

lemma createCoupon_fields:
  "used (createCoupon r ty D) = False" "earnedDate (createCoupon r ty D) = D"
  "usedDate (createCoupon r ty D) = None" "id_c (createCoupon r ty D) = (ty, D, r)"
  "type_c (createCoupon r ty D) = ty"
  by (simp_all add: createCoupon_def Let_def)

lemma getCouponEarned_SomeD:
  "getCouponEarned r s D = Some c \<Longrightarrow> coupon_ok c \<and> \<not> used c \<and> earnedDate c = D"
  by (auto simp: getCouponEarned_def coupon_ok_createCoupon createCoupon_fields split: if_splits)


lemma coupon_ok_minSpend: "coupon_ok c \<Longrightarrow> minSpend c = 25 \<or> minSpend c = 50"
  by (cases "type_c c") (simp_all add: coupon_ok_def)

lemma coupon_ok_mark: "coupon_ok c \<Longrightarrow> coupon_ok (c\<lparr>used := u, usedDate := ud\<rparr>)"
  by (simp add: coupon_ok_def)

lemma list_all_mark_used:
  "list_all coupon_ok h \<Longrightarrow> list_all coupon_ok (mark_used d cu h)"
proof (cases cu)
  case None
  then show "list_all coupon_ok h \<Longrightarrow> ?thesis" by (simp add: mark_used_def)
next
  case (Some b)
  assume h: "list_all coupon_ok h"
  show ?thesis
  proof (cases "b < length h")
    case True
    then have "coupon_ok (h ! b)" using h by (simp add: list_all_length)
    then have "coupon_ok ((h ! b)\<lparr>used := True, usedDate := Some d\<rparr>)" by (rule coupon_ok_mark)
    then show ?thesis using h Some
      by (auto simp: mark_used_def list_all_iff dest!: set_update_subset_insert [THEN subsetD])
  next
    case False
    then show ?thesis using h Some by (simp add: mark_used_def list_update_beyond)
  qed
qed

lemma coupon_ok_process_entry:
  assumes "list_all coupon_ok (heap st)"
  shows "list_all coupon_ok (heap (process_entry rnd tb ws w shops i st))"
  using assms
  by (auto simp: process_entry_fields(1) list_all_mark_used dest: getCouponEarned_SomeD
        split: option.splits)


section \<open>Earning and building a coupon\<close>

text \<open>
  C3. For every spend \<open>s\<close>, earn date \<open>t\<close> and random string \<open>r\<close>, \<open>getCouponEarned\<close> returns a
  large coupon iff \<open>s \<ge> 50\<close>, a small coupon iff \<open>25 \<le> s < 50\<close>, and no coupon iff \<open>s < 25\<close>.
\<close>

theorem getCouponEarned_thresholds:
  "(map_option type_c (getCouponEarned r s t) = Some large) = (s \<ge> 50) \<and>
   (map_option type_c (getCouponEarned r s t) = Some small) = (25 \<le> s \<and> s < 50) \<and>
   (getCouponEarned r s t = None) = (s < 25)"
  by (simp add: getCouponEarned_def createCoupon_def Let_def)

text \<open>
  C4. A coupon built by \<open>createCoupon\<close> from the earn date \<open>D\<close> is valid from \<open>D + 1\<close>, until
  \<open>D + 7\<close> when small and \<open>D + 10\<close> when large, which is the activation date plus the validity
  window of its type (6 days for small, 9 for large); it is not used.
\<close>

theorem createCoupon_dates:
  "validFrom (createCoupon r ty D) = D + 1 \<and>
   validUntil (createCoupon r ty D) = (case ty of small \<Rightarrow> D + 7 | large \<Rightarrow> D + 10) \<and>
   validUntil (createCoupon r ty D) = validFrom (createCoupon r ty D) + validDays (COUPON_RULES ty) \<and>
   validDays (COUPON_RULES small) = 6 \<and> validDays (COUPON_RULES large) = 9 \<and>
   used (createCoupon r ty D) = False"
  by (cases ty) (simp_all add: createCoupon_def Let_def)

section \<open>Shops per week, and budgets that plan nothing\<close>

text \<open>
  C7. The number of shops planned for a week with budget \<open>w\<close> is 2 if \<open>w \<ge> 100\<close>, 2 if
  \<open>90 \<le> w < 100\<close>, 1 if \<open>75 \<le> w < 90\<close> and 1 otherwise: 2 iff \<open>w \<ge> 90\<close>, else 1.
\<close>

theorem determineOptimalShopsPerWeek_cases:
  "determineOptimalShopsPerWeek w =
     (if w \<ge> 100 then 2 else if 90 \<le> w \<and> w < 100 then 2 else if 75 \<le> w \<and> w < 90 then 1 else 1) \<and>
   (determineOptimalShopsPerWeek w = 2) = (w \<ge> 90) \<and>
   (determineOptimalShopsPerWeek w = 1) = (w < 90)"
  by (simp add: determineOptimalShopsPerWeek_def)

text \<open>
  C9. For a weekly budget \<open>b \<le> 0\<close> and any start date, \<open>optimizeShoppingPlan\<close> returns the
  result with no entries and all totals zero; the model has no error value, the first test of
  the loop guard ends the run.
\<close>

theorem nonpositive_budget_empty_plan:
  assumes "b \<le> 0"
  shows "optimizeShoppingPlan rnd b d =
     \<lparr>res_entries = [], res_totalSpend = 0, res_totalSavings = 0, res_missedSavings = 0,
      res_couponsEarned = 0, res_couponsUsed = 0\<rparr>"
proof -
  have "min b (b * 10 - totalSpend init_state) \<le> 0"
    using assms by (simp add: init_state_def)
  then have "plan_run rnd b d = init_state"
    unfolding plan_run_def by (subst week_loop.simps) (simp add: Let_def)
  then show ?thesis
    by (simp add: optimizeShoppingPlan_def init_state_def round2_0)
qed

theorem nonpositive_budget_empty_plan_witness:
  "(-5::rat) \<le> 0 \<and> optimizeShoppingPlan rnd0 (-5) 3 =
     \<lparr>res_entries = [], res_totalSpend = 0, res_totalSavings = 0, res_missedSavings = 0,
      res_couponsEarned = 0, res_couponsUsed = 0\<rparr>"
  using nonpositive_budget_empty_plan [of "-5" rnd0 3] by simp

section \<open>The threshold-seeking adjustment\<close>

text \<open>
  C8. The adjustment of lines 77 and 78, \<open>optimizeSpendForCoupon\<close> followed by the minimum
  with the remaining overall budget, is the five-case function of the specification followed
  by the clamp; redeeming a coupon leaves the tentative spend as it was; and what one pass of
  the inner loop (\<open>shopInWeek < shopsThisWeek\<close>) adds to \<open>totalSpend\<close> and records, rounded to
  cents, in its entry is that function of the tentative spend and the remaining overall
  budget.
\<close>

theorem threshold_adjustment_refines:
  assumes "i < shops"
  shows
  "min (optimizeSpendForCoupon s r) r = threshold_adjust_spec s r \<and>
   fst (apply_best_coupon dt s st) = s \<and>
   totalSpend (process_entry rnd tb ws w shops i st)
     = totalSpend st + threshold_adjust_spec (tentative_spend ws w shops i st) (tb - totalSpend st) \<and>
   plannedAmount (last (entries (process_entry rnd tb ws w shops i st)))
     = round2 (threshold_adjust_spec (tentative_spend ws w shops i st) (tb - totalSpend st))"
proof -
  have eq: "final_spend a x = threshold_adjust_spec a x" for a x
    by (simp add: final_spend_def optimizeSpendForCoupon_def threshold_adjust_spec_def)
  show ?thesis
    by (simp add: process_entry_fields apply_best_coupon_eq eq [symmetric] final_spend_def)
qed

theorem threshold_adjustment_refines_witness:
  "(0 :: nat) < 1 \<and>
   min (optimizeSpendForCoupon 47 100) 100 = 50 \<and>
   tentative_spend 7 60 1 0 scenario_redeem = 60 \<and>
   totalSpend (process_entry rnd0 1000 7 60 1 0 scenario_redeem) = 210 \<and>
   plannedAmount (last (entries (process_entry rnd0 1000 7 60 1 0 scenario_redeem))) = 60"
proof -
  have i: "(0 :: nat) < 1" by simp
  have t: "tentative_spend 7 60 1 0 scenario_redeem = 60"
    by (simp add: tentative_spend_def remainingWeeklyAmount_def scenario_redeem_def)
  have ts: "totalSpend scenario_redeem = 150" by (simp add: scenario_redeem_def)
  have a: "threshold_adjust_spec 47 100 = 50" "threshold_adjust_spec 60 (1000 - 150) = 60"
    by (simp_all add: threshold_adjust_spec_def)
  have r: "round2 60 = 60" "(150 :: rat) + 60 = 210"
    by (simp_all add: round2_numeral)
  note T = threshold_adjustment_refines [OF i, of 47 100 7 scenario_redeem rnd0 1000 7 60,
      unfolded t ts a r]
  show ?thesis
    using i t T by (intro conjI) blast+
qed

section \<open>Totals and counters\<close>








section \<open>Expired coupons and missed savings\<close>

lemma removed_refs_process_entry:
  assumes "refs_ok st"
  shows "removed_refs (process_entry rnd tb ws w shops i st) =
           removed_refs st \<union>
           {c \<in> set (activeCoupons st). is_expired_unused (heap st) (entry_date ws shops i) c}"
  using assms unfolding removed_refs_def refs_ok_def
  by (auto simp: process_entry_fields(3) length_heap_process_entry remove_expired_active
        less_Suc_eq split: option.splits)

lemma missed_ok_process_entry:
  assumes "refs_ok st" "missed_ok st"
  shows "missed_ok (process_entry rnd tb ws w shops i st)"
proof -
  let ?d = "entry_date ws shops i"
  let ?P = "process_entry rnd tb ws w shops i st"
  let ?E = "{c \<in> set (activeCoupons st). is_expired_unused (heap st) ?d c}"
  let ?cu = "chosen_coupon ?d (tentative_spend ws w shops i st) (remove_expired ?d st)"
  have rem: "removed_refs ?P = removed_refs st \<union> ?E"
    using assms(1) by (rule removed_refs_process_entry)
  have lt: "r < length (heap st)" if "r \<in> removed_refs st \<union> ?E" for r
    using that assms(1) by (auto simp: removed_refs_def refs_ok_def)
  have disj: "removed_refs st \<inter> ?E = {}" by (auto simp: removed_refs_def)
  have fin: "finite (removed_refs st)" "finite ?E" by (simp_all add: removed_refs_def)
  have "missedSavings ?P = missedSavings st
        + sum_list (map (\<lambda>c. value_c (heap st ! c))
            (filter (is_expired_unused (heap st) ?d) (activeCoupons st)))"
    by (simp add: process_entry_fields remove_expired_missed)
  also have "sum_list (map (\<lambda>c. value_c (heap st ! c))
            (filter (is_expired_unused (heap st) ?d) (activeCoupons st)))
        = (\<Sum>c\<in>?E. value_c (heap st ! c))"
    using assms(1) by (simp add: sum_list_distinct_conv_sum_set refs_ok_def)
  also have "missedSavings st = (\<Sum>r\<in>removed_refs st. value_c (heap st ! r))"
    using assms(2) by (simp add: missed_ok_def)
  also have "(\<Sum>r\<in>removed_refs st. value_c (heap st ! r)) + (\<Sum>c\<in>?E. value_c (heap st ! c))
        = (\<Sum>r\<in>removed_refs st \<union> ?E. value_c (heap st ! r))"
    using fin disj by (simp add: sum.union_disjoint)
  also have "\<dots> = (\<Sum>r\<in>removed_refs st \<union> ?E. value_c (heap ?P ! r))"
    by (rule sum.cong) (simp_all add: lt heap_process_entry_nth value_c_mark_used)
  finally have m: "missedSavings ?P = (\<Sum>r\<in>removed_refs ?P. value_c (heap ?P ! r))"
    by (simp add: rem)
  have "\<not> used (heap ?P ! r)" if r: "r \<in> removed_refs st \<union> ?E" for r
  proof -
    have "\<not> used (heap st ! r)"
      using r assms(2) by (auto simp: missed_ok_def is_expired_unused_def)
    moreover have "?cu \<noteq> Some r"
    proof
      assume "?cu = Some r"
      then have "r \<in> set (activeCoupons (remove_expired ?d st))"
        by (rule chosen_coupon_SomeD(1))
      then show False
        using r assms(1) by (auto simp: remove_expired_active refs_ok_def removed_refs_def)
    qed
    ultimately show ?thesis by (simp add: used_process_entry_nth lt [OF r])
  qed
  then show ?thesis unfolding missed_ok_def rem [symmetric] using m by (simp add: rem)
qed

lemma missed_ok_init: "missed_ok init_state"
  by (simp add: missed_ok_def removed_refs_def init_state_def)

lemma missed_ok_plan_run: "refs_ok (plan_run rnd b d) \<and> missed_ok (plan_run rnd b d)"
proof (rule plan_run_inv)
  show "refs_ok init_state \<and> missed_ok init_state"
    by (simp add: refs_ok_init missed_ok_init)
qed (simp add: refs_ok_process_entry missed_ok_process_entry)

text \<open>
  C6. In a state whose active list holds valid references, none twice (as in every state of
  a run), when an event dated \<open>d\<close> is processed, every active coupon that is unused and whose
  \<open>validUntil\<close> is before \<open>d\<close> leaves the active list and its value is added to
  \<open>missedSavings\<close>, before anything else happens to the event; the coupons out of the active
  list grow by exactly these; a second sweep adds nothing; and when the run ends
  \<open>missedSavings\<close> is the sum, over the coupons that left the active list, of their values,
  each once, none of them used.
\<close>

theorem expired_coupons_missed_once:
  assumes "refs_ok st" "i < shops"
  shows
   "activeCoupons (remove_expired d st)
      = filter (\<lambda>c. \<not> (d > validUntil (heap st ! c) \<and> \<not> used (heap st ! c))) (activeCoupons st) \<and>
    missedSavings (remove_expired d st)
      = missedSavings st +
        (\<Sum>c\<in>{c \<in> set (activeCoupons st). d > validUntil (heap st ! c) \<and> \<not> used (heap st ! c)}.
           value_c (heap st ! c)) \<and>
    missedSavings (remove_expired d (remove_expired d st)) = missedSavings (remove_expired d st) \<and>
    missedSavings (process_entry rnd tb ws w shops i st)
      = missedSavings (remove_expired (entry_date ws shops i) st) \<and>
    removed_refs (process_entry rnd tb ws w shops i st)
      = removed_refs st \<union>
        {c \<in> set (activeCoupons st).
           entry_date ws shops i > validUntil (heap st ! c) \<and> \<not> used (heap st ! c)} \<and>
    missedSavings (plan_run rnd' b d')
      = (\<Sum>r\<in>removed_refs (plan_run rnd' b d'). value_c (heap (plan_run rnd' b d') ! r)) \<and>
    (\<forall>r\<in>removed_refs (plan_run rnd' b d'). \<not> used (heap (plan_run rnd' b d') ! r))"
proof -
  have dist: "distinct (activeCoupons st)" using assms(1) by (simp add: refs_ok_def)
  have a: "activeCoupons (remove_expired d st)
      = filter (\<lambda>c. \<not> (d > validUntil (heap st ! c) \<and> \<not> used (heap st ! c))) (activeCoupons st)"
    using dist by (simp add: remove_expired_active is_expired_unused_def)
  have m: "missedSavings (remove_expired d st)
      = missedSavings st +
        (\<Sum>c\<in>{c \<in> set (activeCoupons st). d > validUntil (heap st ! c) \<and> \<not> used (heap st ! c)}.
           value_c (heap st ! c))"
    using dist
    by (simp add: remove_expired_missed sum_list_distinct_conv_sum_set is_expired_unused_def)
  have "filter (is_expired_unused (heap st) d) (activeCoupons (remove_expired d st)) = []"
    using dist by (simp add: remove_expired_active filter_empty_conv)
  then have again:
    "missedSavings (remove_expired d (remove_expired d st)) = missedSavings (remove_expired d st)"
    by (simp add: remove_expired_missed [of d "remove_expired d st"] remove_expired_frame)
  have p: "missedSavings (process_entry rnd tb ws w shops i st)
      = missedSavings (remove_expired (entry_date ws shops i) st)"
    by (simp add: process_entry_fields)
  have r: "removed_refs (process_entry rnd tb ws w shops i st)
      = removed_refs st \<union>
        {c \<in> set (activeCoupons st).
           entry_date ws shops i > validUntil (heap st ! c) \<and> \<not> used (heap st ! c)}"
    using removed_refs_process_entry [OF assms(1)] by (simp add: is_expired_unused_def)
  have run: "missed_ok (plan_run rnd' b d')" using missed_ok_plan_run by simp
  show ?thesis
    using a m again p r run [unfolded missed_ok_def] by blast
qed

theorem expired_coupons_missed_once_witness:
  "refs_ok scenario_c \<and> (0 :: nat) < 1 \<and>
   validUntil (heap scenario_c ! 0) = 12 \<and>
   activeCoupons (remove_expired 12 scenario_c) = [0] \<and>
   missedSavings (remove_expired 12 scenario_c) = 0 \<and>
   activeCoupons (remove_expired 13 scenario_c) = [] \<and>
   missedSavings (remove_expired 13 scenario_c) = 5 \<and>
   missedSavings (remove_expired 13 (remove_expired 13 scenario_c)) = 5"
proof -
  have ok: "refs_ok scenario_c" by (simp add: refs_ok_def scenario_c_def)
  have h: "heap scenario_c ! 0 = createCoupon [] small 5"
    "activeCoupons scenario_c = [0]" "missedSavings scenario_c = 0"
    by (simp_all add: scenario_c_def)
  have v: "validUntil (createCoupon [] small 5) = 12" "used (createCoupon [] small 5) = False"
    "value_c (createCoupon [] small 5) = 5"
    by (simp_all add: createCoupon_def Let_def)
  have e12: "{c \<in> set (activeCoupons scenario_c).
               12 > validUntil (heap scenario_c ! c) \<and> \<not> used (heap scenario_c ! c)} = {}"
    and e13: "{c \<in> set (activeCoupons scenario_c).
               13 > validUntil (heap scenario_c ! c) \<and> \<not> used (heap scenario_c ! c)} = {0}"
    by (simp_all add: h v Collect_conv_if)
  have i: "(0 :: nat) < 1" by simp
  note t12 = expired_coupons_missed_once [OF ok i, of 12, unfolded e12]
  note t13 = expired_coupons_missed_once [OF ok i, of 13, unfolded e13]
  show ?thesis
    using ok i t12 t13 by (simp add: h v)
qed

section \<open>Redemption\<close>

lemma used_refs_append:
  "used_refs (es @ [e]) = used_refs es @ (case couponUsed e of None \<Rightarrow> [] | Some r \<Rightarrow> [r])"
  by (simp add: used_refs_def map_filter_def split: option.splits)

lemma used_set_process_entry:
  assumes "refs_ok st"
  shows "{r. r < length (heap (process_entry rnd tb ws w shops i st))
             \<and> used (heap (process_entry rnd tb ws w shops i st) ! r)}
       = {r. r < length (heap st) \<and> used (heap st ! r)}
         \<union> set_option (chosen_coupon (entry_date ws shops i) (tentative_spend ws w shops i st)
              (remove_expired (entry_date ws shops i) st))"
proof -
  let ?d = "entry_date ws shops i"
  let ?P = "process_entry rnd tb ws w shops i st"
  let ?cu = "chosen_coupon ?d (tentative_spend ws w shops i st) (remove_expired ?d st)"
  have new: "\<not> used (heap ?P ! r)" if "r < length (heap ?P)" "\<not> r < length (heap st)" for r
  proof -
    have "length (heap ?P) \<le> length (heap st) + 1"
      by (simp add: length_heap_process_entry split: option.splits)
    then have r: "r = length (heap st)" using that by simp
    then have "length (heap ?P) \<noteq> length (heap st)" using that by simp
    then obtain c where c: "getCouponEarned (rnd (length (heap st)))
        (final_spend (tentative_spend ws w shops i st) (tb - totalSpend st)) ?d = Some c"
      by (cases "getCouponEarned (rnd (length (heap st)))
        (final_spend (tentative_spend ws w shops i st) (tb - totalSpend st)) ?d")
         (simp_all add: length_heap_process_entry)
    have "heap ?P ! r = c"
      using c r by (simp add: process_entry_fields nth_append length_mark_used)
    then show ?thesis using getCouponEarned_SomeD [OF c] by simp
  qed
  have lt: "b < length (heap st)" if "?cu = Some b" for b
    using chosen_coupon_valid [OF assms that] by simp
  have le: "length (heap st) \<le> length (heap ?P)"
    by (simp add: length_heap_process_entry)
  show ?thesis
  proof (rule set_eqI)
    fix r
    show "(r \<in> {r. r < length (heap ?P) \<and> used (heap ?P ! r)})
        = (r \<in> {r. r < length (heap st) \<and> used (heap st ! r)} \<union> set_option ?cu)"
    proof (cases "r < length (heap st)")
      case True
      then show ?thesis using le by (auto simp: used_process_entry_nth)
    next
      case False
      then show ?thesis using new [of r] lt [of r] by auto
    qed
  qed
qed

lemma redeem_ok_process_entry:
  assumes "refs_ok st" "redeem_ok st"
  shows "redeem_ok (process_entry rnd tb ws w shops i st)"
proof -
  let ?d = "entry_date ws shops i"
  let ?P = "process_entry rnd tb ws w shops i st"
  let ?cu = "chosen_coupon ?d (tentative_spend ws w shops i st) (remove_expired ?d st)"
  let ?new = "case ?cu of None \<Rightarrow> [] | Some r \<Rightarrow> [r]"
  have old: "distinct (used_refs (entries st))"
    "set (used_refs (entries st)) = {r. r < length (heap st) \<and> used (heap st ! r)}"
    using assms(2) by (simp_all add: redeem_ok_def)
  have refs: "used_refs (entries ?P) = used_refs (entries st) @ ?new"
    by (simp add: process_entry_fields(2) used_refs_append)
  have new: "set ?new = set_option ?cu" "distinct ?new"
    by (cases ?cu; simp)+
  have fresh: "set_option ?cu \<inter> set (used_refs (entries st)) = {}"
  proof (cases ?cu)
    case None
    then show ?thesis by simp
  next
    case (Some b)
    have "\<not> used (heap st ! b)" using chosen_coupon_valid(3) [OF assms(1) Some] .
    then show ?thesis unfolding old(2) Some by simp
  qed
  have "distinct (used_refs (entries ?P))"
    unfolding refs distinct_append new(1) using old(1) new(2) fresh by blast
  moreover have "set (used_refs (entries ?P)) = {r. r < length (heap ?P) \<and> used (heap ?P ! r)}"
    unfolding used_set_process_entry [OF assms(1)] refs set_append new(1) old(2) ..
  ultimately show ?thesis unfolding redeem_ok_def ..
qed

lemma redeem_ok_init: "redeem_ok init_state"
  by (simp add: redeem_ok_def used_refs_def init_state_def map_filter_def)

lemma redeem_ok_plan_run: "refs_ok (plan_run rnd b d) \<and> redeem_ok (plan_run rnd b d)"
proof (rule plan_run_inv)
  show "refs_ok init_state \<and> redeem_ok init_state"
    by (simp add: refs_ok_init redeem_ok_init)
qed (simp add: refs_ok_process_entry redeem_ok_process_entry)

lemma usedDate_chosen:
  assumes "refs_ok st"
    and "chosen_coupon (entry_date ws shops i) (tentative_spend ws w shops i st)
              (remove_expired (entry_date ws shops i) st) = Some b"
  shows "usedDate (heap (process_entry rnd tb ws w shops i st) ! b) = Some (entry_date ws shops i)"
  using chosen_coupon_valid(2) [OF assms] assms(2)
  by (simp add: heap_process_entry_nth nth_mark_used)

text \<open>
  C5. In a state whose active list holds valid references, none twice (as in every state of
  a run), one pass of the inner loop (\<open>shopInWeek < shopsThisWeek\<close>) marks at most one coupon used, the one its entry records,
  and resets none. The coupon recorded is in the active list, unused, with the event's date
  inside its validity window and a minimum spend that the event's tentative spend meets
  (\<open>canUseCoupon\<close>); among all active coupons that are unused with the date inside their
  window it has the highest value, and among those of that value the earliest expiry. In the
  state in which a run ends, no coupon is recorded as redeemed by two entries, and the
  coupons recorded as redeemed are exactly the coupons marked used.
\<close>

theorem best_coupon_redeemed_once:
  assumes "refs_ok st" "i < shops"
  shows
   "{r. r < length (heap (process_entry rnd tb ws w shops i st))
         \<and> used (heap (process_entry rnd tb ws w shops i st) ! r)}
      = {r. r < length (heap st) \<and> used (heap st ! r)}
        \<union> set_option (couponUsed (last (entries (process_entry rnd tb ws w shops i st)))) \<and>
    couponsUsed (process_entry rnd tb ws w shops i st)
      = couponsUsed st
        + (case couponUsed (last (entries (process_entry rnd tb ws w shops i st))) of
             None \<Rightarrow> 0 | Some c \<Rightarrow> 1) \<and>
    (\<forall>b. couponUsed (last (entries (process_entry rnd tb ws w shops i st))) = Some b \<longrightarrow>
       b \<in> set (activeCoupons st) \<and> b < length (heap st) \<and>
       canUseCoupon (heap st ! b) (tentative_spend ws w shops i st) (entry_date ws shops i) \<and>
       usedDate (heap (process_entry rnd tb ws w shops i st) ! b) = Some (entry_date ws shops i) \<and>
       (\<forall>c\<in>set (activeCoupons st).
          \<not> used (heap st ! c) \<and> validFrom (heap st ! c) \<le> entry_date ws shops i
            \<and> entry_date ws shops i \<le> validUntil (heap st ! c) \<longrightarrow>
          value_c (heap st ! c) \<le> value_c (heap st ! b) \<and>
          (value_c (heap st ! c) = value_c (heap st ! b) \<longrightarrow>
             validUntil (heap st ! b) \<le> validUntil (heap st ! c)))) \<and>
    distinct (used_refs (entries (plan_run rnd' b' d'))) \<and>
    set (used_refs (entries (plan_run rnd' b' d')))
      = {r. r < length (heap (plan_run rnd' b' d')) \<and> used (heap (plan_run rnd' b' d') ! r)}"
proof -
  let ?d = "entry_date ws shops i"
  let ?a = "tentative_spend ws w shops i st"
  let ?P = "process_entry rnd tb ws w shops i st"
  let ?cu = "chosen_coupon ?d ?a (remove_expired ?d st)"
  have cu: "couponUsed (last (entries ?P)) = ?cu" by (rule last_entry_process_entry)
  have one: "{r. r < length (heap ?P) \<and> used (heap ?P ! r)}
      = {r. r < length (heap st) \<and> used (heap st ! r)} \<union> set_option ?cu"
    using assms(1) by (rule used_set_process_entry)
  have cnt: "couponsUsed ?P = couponsUsed st + (case ?cu of None \<Rightarrow> 0 | Some c \<Rightarrow> 1)"
    by (simp add: process_entry_fields)
  have best: "b \<in> set (activeCoupons st) \<and> b < length (heap st) \<and>
       canUseCoupon (heap st ! b) ?a ?d \<and>
       usedDate (heap ?P ! b) = Some ?d \<and>
       (\<forall>c\<in>set (activeCoupons st).
          \<not> used (heap st ! c) \<and> validFrom (heap st ! c) \<le> ?d \<and> ?d \<le> validUntil (heap st ! c) \<longrightarrow>
          value_c (heap st ! c) \<le> value_c (heap st ! b) \<and>
          (value_c (heap st ! c) = value_c (heap st ! b) \<longrightarrow>
             validUntil (heap st ! b) \<le> validUntil (heap st ! c)))"
    if b: "?cu = Some b" for b
  proof -
    note v = chosen_coupon_valid [OF assms(1) b]
    have can: "canUseCoupon (heap st ! b) ?a ?d"
      using v by (simp add: canUseCoupon_def is_usable_def)
    have least: "coupon_cmp (heap st) b c \<le> 0"
      if "c \<in> set (activeCoupons st)" "is_usable (heap st) ?d c" for c
    proof -
      have "\<not> is_expired_unused (heap st) ?d c"
        using that(2) by (simp add: is_usable_def is_expired_unused_def)
      then have "c \<in> set (activeCoupons (remove_expired ?d st))"
        using that(1) assms(1) by (simp add: remove_expired_active refs_ok_def)
      then show ?thesis
        using chosen_coupon_SomeD(4) [OF b] that(2) by (simp add: remove_expired_frame)
    qed
    have "value_c (heap st ! c) \<le> value_c (heap st ! b) \<and>
          (value_c (heap st ! c) = value_c (heap st ! b) \<longrightarrow>
             validUntil (heap st ! b) \<le> validUntil (heap st ! c))"
      if "c \<in> set (activeCoupons st)" "\<not> used (heap st ! c)"
        "validFrom (heap st ! c) \<le> ?d" "?d \<le> validUntil (heap st ! c)" for c
      using least [of c] that by (auto simp: is_usable_def coupon_cmp_le_iff)
    then have "\<forall>c\<in>set (activeCoupons st).
          \<not> used (heap st ! c) \<and> validFrom (heap st ! c) \<le> ?d \<and> ?d \<le> validUntil (heap st ! c) \<longrightarrow>
          value_c (heap st ! c) \<le> value_c (heap st ! b) \<and>
          (value_c (heap st ! c) = value_c (heap st ! b) \<longrightarrow>
             validUntil (heap st ! b) \<le> validUntil (heap st ! c))"
      by simp
    with v(1,2) can usedDate_chosen [OF assms(1) b] show ?thesis
      by (intro conjI)
  qed
  then have best': "\<forall>b. ?cu = Some b \<longrightarrow>
       b \<in> set (activeCoupons st) \<and> b < length (heap st) \<and>
       canUseCoupon (heap st ! b) ?a ?d \<and>
       usedDate (heap ?P ! b) = Some ?d \<and>
       (\<forall>c\<in>set (activeCoupons st).
          \<not> used (heap st ! c) \<and> validFrom (heap st ! c) \<le> ?d \<and> ?d \<le> validUntil (heap st ! c) \<longrightarrow>
          value_c (heap st ! c) \<le> value_c (heap st ! b) \<and>
          (value_c (heap st ! c) = value_c (heap st ! b) \<longrightarrow>
             validUntil (heap st ! b) \<le> validUntil (heap st ! c)))"
    by (intro allI impI)
  have run: "redeem_ok (plan_run rnd' b' d')" using redeem_ok_plan_run by simp
  then have run': "distinct (used_refs (entries (plan_run rnd' b' d')))"
    "set (used_refs (entries (plan_run rnd' b' d')))
      = {r. r < length (heap (plan_run rnd' b' d')) \<and> used (heap (plan_run rnd' b' d') ! r)}"
    by (simp_all add: redeem_ok_def)
  show ?thesis
    unfolding cu by (intro conjI one cnt best' run')
qed

theorem best_coupon_redeemed_once_witness:
  "refs_ok scenario_redeem \<and> (0 :: nat) < 1 \<and>
   entry_date 7 1 0 = 7 \<and>
   couponUsed (last (entries (process_entry rnd0 1000 7 60 1 0 scenario_redeem))) = Some 2 \<and>
   canUseCoupon (heap scenario_redeem ! 2) (tentative_spend 7 60 1 0 scenario_redeem) 7 \<and>
   value_c (heap scenario_redeem ! 0) \<le> value_c (heap scenario_redeem ! 2) \<and>
   value_c (heap scenario_redeem ! 1) = value_c (heap scenario_redeem ! 2) \<and>
   validUntil (heap scenario_redeem ! 2) \<le> validUntil (heap scenario_redeem ! 1)"
proof -
  have ok: "refs_ok scenario_redeem" by (simp add: refs_ok_def scenario_redeem_def)
  have d: "entry_date 7 1 0 = 7" by (simp add: entry_date_def)
  have cu: "couponUsed (last (entries (process_entry rnd0 1000 7 60 1 0 scenario_redeem))) = Some 2"
    by code_simp
  have all: "\<forall>c\<in>set (activeCoupons scenario_redeem).
          \<not> used (heap scenario_redeem ! c) \<and> validFrom (heap scenario_redeem ! c) \<le> 7
            \<and> 7 \<le> validUntil (heap scenario_redeem ! c)"
    by (simp add: scenario_redeem_def createCoupon_def Let_def)
  have act: "0 \<in> set (activeCoupons scenario_redeem)" "1 \<in> set (activeCoupons scenario_redeem)"
    by (simp_all add: scenario_redeem_def)
  have same: "value_c (heap scenario_redeem ! 1) = value_c (heap scenario_redeem ! 2)"
    by (simp add: scenario_redeem_def createCoupon_def Let_def)
  have i: "(0 :: nat) < 1" by simp
  note t = best_coupon_redeemed_once [OF ok i, of rnd0 1000 7 60, unfolded d]
  note best = t [THEN conjunct2, THEN conjunct2, THEN conjunct1, rule_format, OF cu]
  have can: "canUseCoupon (heap scenario_redeem ! 2) (tentative_spend 7 60 1 0 scenario_redeem) 7"
    using best by simp
  have le: "\<forall>c\<in>set (activeCoupons scenario_redeem).
      value_c (heap scenario_redeem ! c) \<le> value_c (heap scenario_redeem ! 2) \<and>
      (value_c (heap scenario_redeem ! c) = value_c (heap scenario_redeem ! 2) \<longrightarrow>
         validUntil (heap scenario_redeem ! 2) \<le> validUntil (heap scenario_redeem ! c))"
    using best all by simp
  have "value_c (heap scenario_redeem ! 0) \<le> value_c (heap scenario_redeem ! 2)"
    using le act(1) by blast
  moreover have "validUntil (heap scenario_redeem ! 2) \<le> validUntil (heap scenario_redeem ! 1)"
    using le act(2) same by blast
  ultimately show ?thesis
    using ok i d cu can same by (intro conjI)
qed

section \<open>A redeemed coupon and the recorded spend\<close>

lemma final_spend_ge:
  assumes "m = 25 \<or> m = 50" "m \<le> a" "m \<le> R"
  shows "m \<le> round2 (final_spend a R)"
proof -
  have "m \<le> final_spend a R"
    using assms by (auto simp: final_spend_def optimizeSpendForCoupon_def)
  then have "round2 m \<le> round2 (final_spend a R)" by (rule round2_mono)
  moreover have "round2 m = m" using assms(1) by (auto simp: round2_numeral)
  ultimately show ?thesis by simp
qed

lemma second_shop_budget:
  assumes "90 \<le> w" "w \<le> R0" "m = 25 \<or> m = 50"
    and "m \<le> w - round2 (final_spend (w / 2) R0)"
  shows "m \<le> R0 - final_spend (w / 2) R0"
proof (cases "100 \<le> w")
  case True
  then have "final_spend (w / 2) R0 = w / 2"
    using assms(2) by (simp add: final_spend_def optimizeSpendForCoupon_def)
  then show ?thesis using True assms(2,3) by auto
next
  case False
  then have f: "final_spend (w / 2) R0 = 50"
    using assms(1,2) by (simp add: final_spend_def optimizeSpendForCoupon_def)
  have "round2 (final_spend (w / 2) R0) = 50"
    unfolding f by (rule round2_numeral)
  then have "m = 25" using assms(3,4) False by auto
  then show ?thesis using f assms(1,2) by simp
qed

lemma min_spend_met_process_entry:
  assumes "refs_ok st" "list_all coupon_ok (heap st)" "min_spend_met st"
    and budget: "\<And>m. m = 25 \<or> m = 50 \<Longrightarrow> m \<le> tentative_spend ws w shops i st
                  \<Longrightarrow> m \<le> tb - totalSpend st"
  shows "min_spend_met (process_entry rnd tb ws w shops i st)"
proof -
  let ?d = "entry_date ws shops i"
  let ?a = "tentative_spend ws w shops i st"
  let ?P = "process_entry rnd tb ws w shops i st"
  let ?cu = "chosen_coupon ?d ?a (remove_expired ?d st)"
  have le: "length (heap st) \<le> length (heap ?P)"
    by (simp add: length_heap_process_entry)
  have old: "r < length (heap ?P) \<and> minSpend (heap ?P ! r) \<le> plannedAmount e"
    if "e \<in> set (entries st)" "couponUsed e = Some r" for e r
  proof -
    have r: "r < length (heap st)" "minSpend (heap st ! r) \<le> plannedAmount e"
      using assms(3) that by (auto simp: min_spend_met_def)
    then show ?thesis
      using le by (simp add: heap_process_entry_nth value_c_mark_used)
  qed
  have new: "b < length (heap ?P) \<and>
             minSpend (heap ?P ! b) \<le> round2 (final_spend ?a (tb - totalSpend st))"
    if b: "?cu = Some b" for b
  proof -
    note v = chosen_coupon_valid [OF assms(1) b]
    have "coupon_ok (heap st ! b)"
      using assms(2) v(2) by (simp add: list_all_length)
    then have m: "minSpend (heap st ! b) = 25 \<or> minSpend (heap st ! b) = 50"
      by (rule coupon_ok_minSpend)
    have "minSpend (heap st ! b) \<le> tb - totalSpend st"
      using m v(5) by (rule budget)
    with m v(5) have "minSpend (heap st ! b) \<le> round2 (final_spend ?a (tb - totalSpend st))"
      by (rule final_spend_ge)
    then show ?thesis
      using v(2) le by (simp add: heap_process_entry_nth value_c_mark_used)
  qed
  show ?thesis
    unfolding min_spend_met_def process_entry_fields(2)
    using old new by auto
qed

lemma tentative_spend_first:
  assumes "\<forall>e\<in>set (entries st). date e < ws"
  shows "tentative_spend ws w shops 0 st = w / of_nat shops"
proof -
  have "filter (\<lambda>e. ws \<le> date e \<and> date e < ws + 7) (entries st) = []"
    using assms by (auto simp: filter_empty_conv)
  then show ?thesis
    by (simp add: tentative_spend_def remainingWeeklyAmount_def)
qed

lemma tentative_spend_second:
  assumes "\<forall>e\<in>set (entries st). date e < ws"
  shows "tentative_spend ws w 2 1 (process_entry rnd tb ws w 2 0 st)
       = w - round2 (final_spend (w / 2) (tb - totalSpend st))"
proof -
  have "filter (\<lambda>e. ws \<le> date e \<and> date e < ws + 7) (entries st) = []"
    using assms by (auto simp: filter_empty_conv)
  then show ?thesis
    using tentative_spend_first [OF assms, of w 2]
    by (simp add: tentative_spend_def remainingWeeklyAmount_def process_entry_fields(2)
          entry_date_simps)
qed

lemma week_inv_process_entry:
  assumes "week_inv D st" "entry_date ws shops i < D'" "D \<le> D'"
    and budget: "\<And>m. m = 25 \<or> m = 50 \<Longrightarrow> m \<le> tentative_spend ws w shops i st
                  \<Longrightarrow> m \<le> tb - totalSpend st"
  shows "week_inv D' (process_entry rnd tb ws w shops i st)"
proof -
  have a: "refs_ok st" "list_all coupon_ok (heap st)" "min_spend_met st"
    and dates: "\<forall>e\<in>set (entries st). date e < D"
    using assms(1) by (simp_all add: week_inv_def)
  have "\<forall>e\<in>set (entries (process_entry rnd tb ws w shops i st)). date e < D'"
    using dates assms(2,3) by (auto simp: process_entry_fields(2))
  then show ?thesis
    unfolding week_inv_def
    using refs_ok_process_entry [OF a(1)] coupon_ok_process_entry [OF a(2)]
      min_spend_met_process_entry [OF a budget]
    by simp
qed

lemma week_inv_shop_loop:
  assumes inv: "week_inv ws st" and w: "0 < w" "w \<le> tb - totalSpend st"
  shows "week_inv (ws + 7) (shop_loop rnd tb ws w (determineOptimalShopsPerWeek w) 0 st)"
proof -
  have dates: "\<forall>e\<in>set (entries st). date e < ws"
    using inv by (simp add: week_inv_def)
  have first: "week_inv (ws + 6) (process_entry rnd tb ws w shops 0 st)" if "0 < shops" for shops
  proof (rule week_inv_process_entry [OF inv])
    show "entry_date ws shops 0 < ws + 6" by (simp add: entry_date_simps)
    show "ws \<le> ws + 6" by simp
    fix m :: rat
    assume "m = 25 \<or> m = 50" and "m \<le> tentative_spend ws w shops 0 st"
    then have m: "0 < m" "m \<le> w / of_nat shops"
      by (auto simp: tentative_spend_first [OF dates])
    have "w / of_nat shops \<le> w / 1"
      using w(1) that by (intro divide_left_mono) simp_all
    then show "m \<le> tb - totalSpend st" using m w(2) by simp
  qed
  have widen: "week_inv (ws + 7) s" if "week_inv (ws + 6) s" for s
    using that by (auto simp: week_inv_def)
  show ?thesis
  proof (cases "90 \<le> w")
    case False
    then have shops: "determineOptimalShopsPerWeek w = 1"
      by (simp add: determineOptimalShopsPerWeek_def)
    have "week_inv (ws + 7) (process_entry rnd tb ws w 1 0 st)"
      by (rule widen, rule first) simp
    then show ?thesis unfolding shops shop_loop_one .
  next
    case True
    then have shops: "determineOptimalShopsPerWeek w = 2"
      by (simp add: determineOptimalShopsPerWeek_def)
    let ?P0 = "process_entry rnd tb ws w 2 0 st"
    have P0: "week_inv (ws + 6) ?P0" using first [of 2] by simp
    have "week_inv (ws + 7) (process_entry rnd tb ws w 2 1 ?P0)"
    proof (rule week_inv_process_entry [OF P0])
      show "entry_date ws 2 1 < ws + 7" unfolding entry_date_simps by simp
      show "ws + 6 \<le> ws + 7" by simp
      fix m :: rat
      assume m: "m = 25 \<or> m = 50" and t: "m \<le> tentative_spend ws w 2 1 ?P0"
      from t have "m \<le> w - round2 (final_spend (w / 2) (tb - totalSpend st))"
        unfolding tentative_spend_second [OF dates] .
      with True w(2) m have "m \<le> (tb - totalSpend st) - final_spend (w / 2) (tb - totalSpend st)"
        by (rule second_shop_budget)
      moreover have "totalSpend ?P0 = totalSpend st + final_spend (w / 2) (tb - totalSpend st)"
        unfolding process_entry_fields(4) tentative_spend_first [OF dates] by simp
      ultimately show "m \<le> tb - totalSpend ?P0" by simp
    qed
    then show ?thesis unfolding shops shop_loop_two using P0 by (simp add: widen)
  qed
qed

lemma week_inv_week_loop:
  assumes "week_inv (d + int (week * 7)) st"
  shows "\<exists>D. week_inv D (week_loop rnd b d week st)"
  using assms
proof (induction rnd b d week st rule: week_loop.induct)
  case (1 rnd b d week st)
  let ?w = "min b (b * 10 - totalSpend st)"
  let ?ws = "d + int (week * 7)"
  let ?st' = "shop_loop rnd (b * 10) ?ws ?w (determineOptimalShopsPerWeek ?w) 0 st"
  show ?case
  proof (cases "week < 10 \<and> \<not> ?w \<le> 0")
    case False
    then have "week_loop rnd b d week st = st"
      by (subst week_loop.simps) (auto simp: Let_def)
    then show ?thesis using "1.prems" by auto
  next
    case True
    then have "0 < ?w" by linarith
    moreover have "?w \<le> b * 10 - totalSpend st" by (rule min.cobounded2)
    ultimately have inv': "week_inv (?ws + 7) ?st'"
      using "1.prems" by (intro week_inv_shop_loop)
    show ?thesis
    proof (cases "totalSpend ?st' \<ge> b * 10")
      case stop: True
      then have "week_loop rnd b d week st = ?st'"
        using True by (subst week_loop.simps) (simp add: Let_def)
      then show ?thesis using inv' by auto
    next
      case go: False
      have eq: "d + int ((week + 1) * 7) = ?ws + 7" by simp
      have "week_inv (d + int ((week + 1) * 7)) ?st'" unfolding eq by (rule inv')
      then have "\<exists>D. week_inv D (week_loop rnd b d (week + 1) ?st')"
        using "1.IH" [OF _ refl refl refl _ refl refl] True go by simp
      moreover have "week_loop rnd b d week st = week_loop rnd b d (week + 1) ?st'"
        using True go by (subst week_loop.simps) (simp add: Let_def)
      ultimately show ?thesis by simp
    qed
  qed
qed

lemma min_spend_met_plan_run: "min_spend_met (plan_run rnd b d)"
proof -
  have "entries init_state = []" "heap init_state = []"
    by (simp_all add: init_state_def)
  then have "week_inv (d + int (0 * 7)) init_state"
    using refs_ok_init by (simp add: week_inv_def min_spend_met_def)
  then have "\<exists>D. week_inv D (week_loop rnd b d 0 init_state)"
    by (rule week_inv_week_loop)
  then show ?thesis by (auto simp: plan_run_def week_inv_def)
qed

lemma plan_30_redeemed:
  "map (\<lambda>e. map_option minSpend (couponUsed e)) (res_entries (optimizeShoppingPlan rnd0 30 0))
      = [None, Some 25, Some 25, Some 25, Some 25, Some 25, Some 25, Some 25, Some 25, Some 25]"
  by code_simp

text \<open>
  C1. In the result of \<open>optimizeShoppingPlan\<close>, for every budget and start date, every entry that
  records a redeemed coupon records a planned amount, after the threshold adjustment, the
  clamp to the remaining overall budget and the rounding to cents, of at least that coupon's
  minimum spend.
\<close>

theorem redeemed_entry_meets_minSpend:
  "\<forall>e\<in>set (res_entries (optimizeShoppingPlan rnd b d)).
     \<forall>c. couponUsed e = Some c \<longrightarrow> minSpend c \<le> plannedAmount e"
proof (intro ballI allI impI)
  fix e c
  let ?st = "plan_run rnd b d"
  assume "e \<in> set (res_entries (optimizeShoppingPlan rnd b d))" and c: "couponUsed e = Some c"
  then obtain e0 where e0: "e0 \<in> set (entries ?st)" "e = deref_entry (heap ?st) e0"
    by (auto simp: res_fields)
  from c e0(2) obtain r where r: "couponUsed e0 = Some r" "c = heap ?st ! r"
    by (auto simp: deref_entry_fields)
  have "minSpend (heap ?st ! r) \<le> plannedAmount e0"
    using min_spend_met_plan_run [of rnd b d] e0(1) r(1) by (auto simp: min_spend_met_def)
  then show "minSpend c \<le> plannedAmount e"
    by (simp add: r(2) e0(2) deref_entry_fields)
qed

theorem redeemed_entry_meets_minSpend_witness:
  "res_entries (optimizeShoppingPlan rnd0 30 0) ! 1 \<in> set (res_entries (optimizeShoppingPlan rnd0 30 0)) \<and>
   map_option minSpend (couponUsed (res_entries (optimizeShoppingPlan rnd0 30 0) ! 1)) = Some 25 \<and>
   minSpend (the (couponUsed (res_entries (optimizeShoppingPlan rnd0 30 0) ! 1)))
     \<le> plannedAmount (res_entries (optimizeShoppingPlan rnd0 30 0) ! 1)"
proof -
  let ?es = "res_entries (optimizeShoppingPlan rnd0 30 0)"
  note ev = plan_30_redeemed
  have len: "length ?es = 10"
    using arg_cong [OF ev, of length] by simp
  then have mem: "?es ! 1 \<in> set ?es" by simp
  have "map (\<lambda>e. map_option minSpend (couponUsed e)) ?es ! 1 = Some 25"
    unfolding ev by simp
  then have m: "map_option minSpend (couponUsed (?es ! 1)) = Some 25"
    using len by simp
  then obtain c where c: "couponUsed (?es ! 1) = Some c" by auto
  have "minSpend c \<le> plannedAmount (?es ! 1)"
    using redeemed_entry_meets_minSpend [of rnd0 30 0] mem c by blast
  then show ?thesis using mem m c by simp
qed

section \<open>Runs that differ in their random strings\<close>

lemma erase_state_fields:
  "heap (erase_state st) = map erase_id (heap st)"
  "entries (erase_state st) = entries st"
  "activeCoupons (erase_state st) = activeCoupons st"
  "totalSpend (erase_state st) = totalSpend st"
  "totalSavings (erase_state st) = totalSavings st"
  "missedSavings (erase_state st) = missedSavings st"
  "couponsEarned (erase_state st) = couponsEarned st"
  "couponsUsed (erase_state st) = couponsUsed st"
  "entryId (erase_state st) = entryId st"
  by (simp_all add: erase_state_def)

lemma erase_id_fields:
  "value_c (erase_id c) = value_c c" "minSpend (erase_id c) = minSpend c"
  "validFrom (erase_id c) = validFrom c" "validUntil (erase_id c) = validUntil c"
  "used (erase_id c) = used c" "usedDate (erase_id c) = usedDate c"
  "earnedDate (erase_id c) = earnedDate c" "type_c (erase_id c) = type_c c"
  by (simp_all add: erase_id_def)

lemma refs_ok_erase: "refs_ok (erase_state st) = refs_ok st"
  by (simp add: refs_ok_def erase_state_fields)

lemma is_expired_unused_erase:
  "c < length h \<Longrightarrow> is_expired_unused (map erase_id h) d c = is_expired_unused h d c"
  by (simp add: is_expired_unused_def erase_id_fields)

lemma is_usable_erase:
  "c < length h \<Longrightarrow> is_usable (map erase_id h) d c = is_usable h d c"
  by (simp add: is_usable_def erase_id_fields)

lemma coupon_cmp_erase:
  "a < length h \<Longrightarrow> b < length h \<Longrightarrow> coupon_cmp (map erase_id h) a b = coupon_cmp h a b"
  by (simp add: coupon_cmp_def erase_id_fields)

lemma filter_expired_erase:
  assumes "refs_ok st"
  shows "filter (is_expired_unused (map erase_id (heap st)) d) (activeCoupons st)
       = filter (is_expired_unused (heap st) d) (activeCoupons st)"
  using assms by (intro filter_cong) (simp_all add: refs_ok_def is_expired_unused_erase)

lemma remove_expired_erase:
  assumes "refs_ok st"
  shows "remove_expired d (erase_state st) = erase_state (remove_expired d st)"
proof (rule plan_state.equality)
  have dist: "distinct (activeCoupons st)" using assms by (simp add: refs_ok_def)
  have lt: "c < length (heap st)" if "c \<in> set (activeCoupons st)" for c
    using assms that by (simp add: refs_ok_def)
  show "activeCoupons (remove_expired d (erase_state st))
      = activeCoupons (erase_state (remove_expired d st))"
    using dist
    by (simp add: remove_expired_active erase_state_fields)
       (intro filter_cong, simp_all add: lt is_expired_unused_erase)
  have m: "map (\<lambda>c. value_c (map erase_id (heap st) ! c))
          (filter (is_expired_unused (heap st) d) (activeCoupons st))
      = map (\<lambda>c. value_c (heap st ! c))
          (filter (is_expired_unused (heap st) d) (activeCoupons st))"
    by (rule map_cong) (simp_all add: lt erase_id_fields)
  show "missedSavings (remove_expired d (erase_state st))
      = missedSavings (erase_state (remove_expired d st))"
    by (simp add: remove_expired_missed erase_state_fields filter_expired_erase [OF assms] m)
qed (simp_all add: remove_expired_frame erase_state_fields)

lemma insert_by_cong:
  assumes "\<And>y. y \<in> set ys \<Longrightarrow> cmp1 x y = cmp2 x y"
  shows "insert_by cmp1 x ys = insert_by cmp2 x ys"
  using assms by (induction ys) simp_all

lemma sort_by_cong:
  assumes "\<And>x y. x \<in> set xs \<Longrightarrow> y \<in> set xs \<Longrightarrow> cmp1 x y = cmp2 x y"
  shows "sort_by cmp1 xs = sort_by cmp2 xs"
  using assms
proof (induction xs)
  case Nil
  show ?case by (simp add: sort_by_def)
next
  case (Cons x xs)
  have IH: "sort_by cmp1 xs = sort_by cmp2 xs"
    using Cons.prems by (intro Cons.IH) simp_all
  have "insert_by cmp1 x (sort_by cmp2 xs) = insert_by cmp2 x (sort_by cmp2 xs)"
    using Cons.prems by (intro insert_by_cong) (simp add: set_sort_by)
  then show ?case
    using IH by (simp add: sort_by_def)
qed

lemma usableCoupons_erase:
  assumes "refs_ok st"
  shows "usableCoupons d (erase_state st) = usableCoupons d st"
proof -
  have lt: "c < length (heap st)" if "c \<in> set (activeCoupons st)" for c
    using assms that by (simp add: refs_ok_def)
  have f: "filter (is_usable (map erase_id (heap st)) d) (activeCoupons st)
         = filter (is_usable (heap st) d) (activeCoupons st)"
    by (rule filter_cong) (simp_all add: lt is_usable_erase)
  have "sort_by (coupon_cmp (map erase_id (heap st))) (filter (is_usable (heap st) d) (activeCoupons st))
      = sort_by (coupon_cmp (heap st)) (filter (is_usable (heap st) d) (activeCoupons st))"
    by (rule sort_by_cong) (simp add: lt coupon_cmp_erase)
  then show ?thesis
    by (simp add: usableCoupons_def erase_state_fields f)
qed

lemma chosen_coupon_erase:
  assumes "refs_ok st"
  shows "chosen_coupon d a (erase_state st) = chosen_coupon d a st"
proof (cases "usableCoupons d st")
  case Nil
  then show ?thesis by (simp add: chosen_coupon_def usableCoupons_erase [OF assms])
next
  case (Cons b rest)
  then have "b \<in> set (usableCoupons d st)" by simp
  then have "b \<in> set (activeCoupons st)" by (simp add: usableCoupons_def set_sort_by)
  then have "b < length (heap st)" using assms by (simp add: refs_ok_def)
  then show ?thesis
    using Cons
    by (simp add: chosen_coupon_def usableCoupons_erase [OF assms] erase_state_fields
          erase_id_fields)
qed

lemma tentative_spend_erase:
  "tentative_spend ws w shops i (erase_state st) = tentative_spend ws w shops i st"
  by (simp add: tentative_spend_def remainingWeeklyAmount_def erase_state_fields)

lemma erase_id_mark:
  "erase_id (c\<lparr>used := u, usedDate := ud\<rparr>) = (erase_id c)\<lparr>used := u, usedDate := ud\<rparr>"
  by (cases c) (simp add: erase_id_def)

lemma mark_used_erase:
  "mark_used d cu (map erase_id h) = map erase_id (mark_used d cu h)"
proof (cases cu)
  case None
  then show ?thesis by (simp add: mark_used_def)
next
  case (Some b)
  show ?thesis
  proof (cases "b < length h")
    case True
    then show ?thesis using Some by (simp add: mark_used_def map_update erase_id_mark)
  next
    case False
    then show ?thesis using Some by (simp add: mark_used_def list_update_beyond)
  qed
qed

lemma getCouponEarned_erase:
  "getCouponEarned [] s D = map_option erase_id (getCouponEarned r s D)"
  by (simp add: getCouponEarned_def createCoupon_def erase_id_def Let_def)

lemma process_entry_erase:
  assumes "refs_ok st"
  shows "process_entry rnd0 tb ws w shops i (erase_state st)
       = erase_state (process_entry rnd tb ws w shops i st)"
proof -
  let ?d = "entry_date ws shops i"
  let ?a = "tentative_spend ws w shops i st"
  let ?st1 = "remove_expired ?d st"
  let ?cu = "chosen_coupon ?d ?a ?st1"
  let ?f = "final_spend ?a (tb - totalSpend st)"
  let ?G = "getCouponEarned (rnd (length (heap st))) ?f ?d"
  have r1: "refs_ok ?st1" using assms by (rule refs_ok_remove_expired)
  have re: "remove_expired ?d (erase_state st) = erase_state ?st1"
    using assms by (rule remove_expired_erase)
  have cu: "chosen_coupon ?d ?a (erase_state ?st1) = ?cu"
    using r1 by (rule chosen_coupon_erase)
  have G: "getCouponEarned (rnd0 (length (heap st))) ?f ?d = map_option erase_id ?G"
    unfolding rnd0_def by (rule getCouponEarned_erase)
  have sav: "(case ?cu of None \<Rightarrow> 0 | Some b \<Rightarrow> value_c (heap (erase_state st) ! b))
           = (case ?cu of None \<Rightarrow> 0 | Some b \<Rightarrow> value_c (heap st ! b))"
  proof (cases ?cu)
    case None
    then show ?thesis by simp
  next
    case (Some b)
    then show ?thesis
      using chosen_coupon_valid(2) [OF assms Some]
      by (simp add: erase_id_fields erase_state_fields)
  qed
  note simps = process_entry_fields erase_state_fields tentative_spend_erase re cu G sav
    mark_used_erase
  show ?thesis
  proof (rule plan_state.equality)
    show "heap (process_entry rnd0 tb ws w shops i (erase_state st))
        = heap (erase_state (process_entry rnd tb ws w shops i st))"
      by (cases ?G) (simp_all add: simps)
    show "entries (process_entry rnd0 tb ws w shops i (erase_state st))
        = entries (erase_state (process_entry rnd tb ws w shops i st))"
      by (cases ?G) (simp_all add: simps)
    show "activeCoupons (process_entry rnd0 tb ws w shops i (erase_state st))
        = activeCoupons (erase_state (process_entry rnd tb ws w shops i st))"
      by (cases ?G) (simp_all add: simps)
    show "couponsEarned (process_entry rnd0 tb ws w shops i (erase_state st))
        = couponsEarned (erase_state (process_entry rnd tb ws w shops i st))"
      by (cases ?G) (simp_all add: simps)
  qed (simp_all add: simps)
qed

lemma shop_loop_erase:
  assumes "refs_ok st"
  shows "shop_loop rnd0 tb ws w shops i (erase_state st)
       = erase_state (shop_loop rnd tb ws w shops i st)"
  using assms
proof (induction rnd tb ws w shops i st rule: shop_loop.induct)
  case (1 rnd tb ws w shops i st)
  let ?P = "process_entry rnd tb ws w shops i st"
  show ?case
  proof (cases "i < shops")
    case False
    then show ?thesis by (simp add: shop_loop_stop)
  next
    case True
    have P: "process_entry rnd0 tb ws w shops i (erase_state st) = erase_state ?P"
      using "1.prems" by (rule process_entry_erase)
    have rP: "refs_ok ?P" using "1.prems" by (rule refs_ok_process_entry)
    have tot: "totalSpend (erase_state ?P) = totalSpend ?P" by (rule erase_state_fields)
    note L = shop_loop_step [OF True, of rnd0 tb ws w "erase_state st", unfolded P tot]
    note R = shop_loop_step [OF True, of rnd tb ws w st]
    show ?thesis
    proof (cases "tb \<le> totalSpend ?P")
      case stop: True
      show ?thesis unfolding L R using stop by simp
    next
      case go: False
      have "shop_loop rnd0 tb ws w shops (i + 1) (erase_state ?P)
          = erase_state (shop_loop rnd tb ws w shops (i + 1) ?P)"
        using "1.IH" [OF True refl _ rP] go by simp
      then show ?thesis unfolding L R using go by simp
    qed
  qed
qed

lemma week_loop_erase:
  assumes "refs_ok st"
  shows "week_loop rnd0 b d week (erase_state st) = erase_state (week_loop rnd b d week st)"
  using assms
proof (induction rnd b d week st rule: week_loop.induct)
  case (1 rnd b d week st)
  let ?w = "min b (b * 10 - totalSpend st)"
  let ?ws = "d + int (week * 7)"
  let ?st' = "shop_loop rnd (b * 10) ?ws ?w (determineOptimalShopsPerWeek ?w) 0 st"
  have S: "shop_loop rnd0 (b * 10) ?ws ?w (determineOptimalShopsPerWeek ?w) 0 (erase_state st)
         = erase_state ?st'"
    using "1.prems" by (rule shop_loop_erase)
  have rS: "refs_ok ?st'" using "1.prems" by (rule refs_ok_shop_loop)
  have tot: "totalSpend (erase_state st) = totalSpend st"
    "totalSpend (erase_state ?st') = totalSpend ?st'"
    by (rule erase_state_fields)+
  note L = week_loop_step [of rnd0 b d week "erase_state st", unfolded tot(1) S tot(2)]
  note R = week_loop_step [of rnd b d week st]
  show ?case
  proof (cases "week < 10 \<and> \<not> ?w \<le> 0 \<and> \<not> b * 10 \<le> totalSpend ?st'")
    case False
    show ?thesis unfolding L R using False by auto
  next
    case True
    have "week_loop rnd0 b d (week + 1) (erase_state ?st')
        = erase_state (week_loop rnd b d (week + 1) ?st')"
      using "1.IH" [OF _ refl refl refl _ refl refl _ rS] True by simp
    then show ?thesis unfolding L R using True by simp
  qed
qed

lemma plan_run_erase: "plan_run rnd0 b d = erase_state (plan_run rnd b d)"
proof -
  have "erase_state init_state = init_state"
    by (simp add: erase_state_def init_state_def)
  then show ?thesis
    unfolding plan_run_def using week_loop_erase [OF refs_ok_init, of b d 0 rnd] by simp
qed

lemma entry_refs_ok_process_entry:
  assumes "refs_ok st" "entry_refs_ok st"
  shows "entry_refs_ok (process_entry rnd tb ws w shops i st)"
proof -
  let ?d = "entry_date ws shops i"
  let ?P = "process_entry rnd tb ws w shops i st"
  let ?cu = "chosen_coupon ?d (tentative_spend ws w shops i st) (remove_expired ?d st)"
  let ?G = "getCouponEarned (rnd (length (heap st)))
              (final_spend (tentative_spend ws w shops i st) (tb - totalSpend st)) ?d"
  have cu: "b < length (heap st)" if "?cu = Some b" for b
    using chosen_coupon_valid(2) [OF assms(1) that] .
  have old: "(\<forall>e\<in>set (entries st). \<forall>r. couponEarned e = Some r \<longrightarrow> r < length (heap st))"
    "(\<forall>e\<in>set (entries st). \<forall>r. couponUsed e = Some r \<longrightarrow> r < length (heap st))"
    "(\<forall>r<length (heap st). \<exists>e\<in>set (entries st). couponEarned e = Some r)"
    using assms(2) by (simp_all add: entry_refs_ok_def)
  show ?thesis
  proof (cases ?G)
    case None
    then have len: "length (heap ?P) = length (heap st)"
      by (simp add: length_heap_process_entry)
    show ?thesis
      unfolding entry_refs_ok_def len process_entry_fields(2)
      using old cu None by auto
  next
    case (Some c)
    then have len: "length (heap ?P) = Suc (length (heap st))"
      by (simp add: length_heap_process_entry)
    show ?thesis
      unfolding entry_refs_ok_def len process_entry_fields(2)
      using old cu Some by (auto simp: less_Suc_eq)
  qed
qed

lemma entry_refs_ok_plan_run: "refs_ok (plan_run rnd b d) \<and> entry_refs_ok (plan_run rnd b d)"
proof (rule plan_run_inv)
  have "entry_refs_ok init_state"
    by (simp add: entry_refs_ok_def init_state_def)
  then show "refs_ok init_state \<and> entry_refs_ok init_state"
    using refs_ok_init by simp
qed (simp add: refs_ok_process_entry entry_refs_ok_process_entry)

lemma erase_deref_entry:
  assumes "\<forall>r. couponEarned e = Some r \<longrightarrow> r < length h"
    and "\<forall>r. couponUsed e = Some r \<longrightarrow> r < length h"
  shows "erase_entry (deref_entry h e) = deref_entry (map erase_id h) e"
  using assms
  by (cases "couponEarned e"; cases "couponUsed e") (simp_all add: erase_entry_def deref_entry_def)

lemma erase_result_plan:
  "erase_result (optimizeShoppingPlan rnd b d) = optimizeShoppingPlan rnd0 b d"
proof -
  let ?st = "plan_run rnd b d"
  have ok: "entry_refs_ok ?st" using entry_refs_ok_plan_run by simp
  have "map erase_entry (map (deref_entry (heap ?st)) (entries ?st))
      = map (deref_entry (map erase_id (heap ?st))) (entries ?st)"
    unfolding map_map
    by (rule map_cong [OF refl]) (use ok in \<open>simp add: erase_deref_entry entry_refs_ok_def\<close>)
  then show ?thesis
    by (simp add: optimizeShoppingPlan_def Let_def erase_result_def
          plan_run_erase [of b d rnd] erase_state_fields)
qed

text \<open>
  C10. Two runs of \<open>optimizeShoppingPlan\<close> with the same budget and start date, whatever
  \<^verbatim>\<open>Math.random\<close> returns in each, give the same result once the random part of every coupon
  identifier is blanked (so also when identifiers are ignored altogether); and in each result
  the coupon that an entry records as redeemed is, identifier included, the coupon object
  that some entry of that result records as earned.
\<close>

theorem plan_deterministic_up_to_ids:
  "erase_result (optimizeShoppingPlan rnd1 b d) = erase_result (optimizeShoppingPlan rnd2 b d) \<and>
   (\<forall>e\<in>set (res_entries (optimizeShoppingPlan rnd1 b d)). \<forall>c. couponUsed e = Some c \<longrightarrow>
      Some c \<in> couponEarned ` set (res_entries (optimizeShoppingPlan rnd1 b d)))"
proof (intro conjI ballI allI impI)
  show "erase_result (optimizeShoppingPlan rnd1 b d) = erase_result (optimizeShoppingPlan rnd2 b d)"
    by (simp add: erase_result_plan)
next
  fix e c
  let ?st = "plan_run rnd1 b d"
  assume "e \<in> set (res_entries (optimizeShoppingPlan rnd1 b d))" and c: "couponUsed e = Some c"
  then obtain e0 where e0: "e0 \<in> set (entries ?st)" "e = deref_entry (heap ?st) e0"
    by (auto simp: res_fields)
  from c e0(2) obtain r where r: "couponUsed e0 = Some r" "c = heap ?st ! r"
    by (auto simp: deref_entry_fields)
  have ok: "entry_refs_ok ?st" using entry_refs_ok_plan_run by simp
  then have "r < length (heap ?st)"
    using e0(1) r(1) by (auto simp: entry_refs_ok_def)
  then obtain e1 where e1: "e1 \<in> set (entries ?st)" "couponEarned e1 = Some r"
    using ok by (auto simp: entry_refs_ok_def)
  have "couponEarned (deref_entry (heap ?st) e1) = Some c"
    by (simp add: deref_entry_fields e1(2) r(2))
  moreover have "deref_entry (heap ?st) e1 \<in> set (res_entries (optimizeShoppingPlan rnd1 b d))"
    using e1(1) by (simp add: res_fields)
  ultimately show "Some c \<in> couponEarned ` set (res_entries (optimizeShoppingPlan rnd1 b d))"
    by (metis image_eqI)
qed

theorem plan_deterministic_up_to_ids_witness:
  "erase_result (optimizeShoppingPlan rnd0 30 0) = erase_result (optimizeShoppingPlan rnd_a 30 0) \<and>
   res_entries (optimizeShoppingPlan rnd0 30 0) ! 1 \<in> set (res_entries (optimizeShoppingPlan rnd0 30 0)) \<and>
   couponUsed (res_entries (optimizeShoppingPlan rnd0 30 0) ! 1) \<noteq> None \<and>
   couponUsed (res_entries (optimizeShoppingPlan rnd0 30 0) ! 1)
     \<in> couponEarned ` set (res_entries (optimizeShoppingPlan rnd0 30 0))"
proof -
  let ?es = "res_entries (optimizeShoppingPlan rnd0 30 0)"
  note t = plan_deterministic_up_to_ids [of rnd0 30 0 rnd_a]
  have len: "length ?es = 10"
    using arg_cong [OF plan_30_redeemed, of length] by simp
  then have mem: "?es ! 1 \<in> set ?es" by simp
  have "map (\<lambda>e. map_option minSpend (couponUsed e)) ?es ! 1 = Some 25"
    unfolding plan_30_redeemed by simp
  then have "map_option minSpend (couponUsed (?es ! 1)) = Some 25"
    using len by simp
  then obtain c where c: "couponUsed (?es ! 1) = Some c" by auto
  have "Some c \<in> couponEarned ` set ?es"
    using t mem c by blast
  then show ?thesis using t mem c by simp
qed

end
